theory Spec2Isabelle
  imports Complex_Main "HOL-Library.Log_Nat"
begin

section \<open>Conversation list (MessageScreen)\<close>

subsection \<open>Data\<close>

text \<open>
  The \<^verbatim>\<open>User\<close> and \<^verbatim>\<open>Chat\<close> types of the message screen. The field \<^verbatim>\<open>id\<close> of a user,
  a message row and a chat is written \<open>u_id\<close>, \<open>m_id\<close> and \<open>c_id\<close>. Optional fields
  (\<^verbatim>\<open>last_message?\<close>, \<^verbatim>\<open>is_seen?\<close>, \<^verbatim>\<open>is_unread?\<close>) are options, \<open>None\<close> standing for
  \<^verbatim>\<open>undefined\<close>.

  A \<^verbatim>\<open>created_at\<close> value is a timestamp column of the database; the code only ever
  copies it and reads it through \<^verbatim>\<open>new Date(created_at).getTime()\<close>. It is held here as
  that number of milliseconds.
\<close>

record user =
  u_id :: string
  username :: string
  fullname :: string
  photo_url :: string

record last_msg =
  lm_content :: string
  lm_created_at :: int
  is_seen :: "bool option"

record chat =
  c_id :: string
  other_user :: user
  last_message :: "last_msg option"
  unread_count :: nat
  is_unread :: "bool option"

text \<open>
  A row of the \<^verbatim>\<open>messages\<close> table as a change event delivers it (\<open>row\<close>), and as the
  conversation query selects it (\<open>message\<close>): with the joined \<^verbatim>\<open>sender\<close> and
  \<^verbatim>\<open>receiver\<close> user rows, either of which the join may leave \<^verbatim>\<open>null\<close>.
\<close>

record row =
  m_id :: string
  sender_id :: string
  receiver_id :: string
  content :: string
  created_at :: int

record message = row +
  sender :: "user option"
  receiver :: "user option"

datatype error = TypeError

subsection \<open>The chat map\<close>

text \<open>
  \<^verbatim>\<open>chatMap\<close> is a JavaScript \<^verbatim>\<open>Map\<close>: its values are listed in the order their keys
  were first set. It is an association list with distinct keys; \<open>chatMap_set\<close>
  replaces the value of a key in place, or appends a new key.
\<close>

type_synonym chat_map = "(string \<times> chat) list"

fun chatMap_get :: "chat_map \<Rightarrow> string \<Rightarrow> chat option" where
  "chatMap_get [] k = None"
| "chatMap_get ((k', c) # m) k = (if k' = k then Some c else chatMap_get m k)"

fun chatMap_set :: "chat_map \<Rightarrow> string \<Rightarrow> chat \<Rightarrow> chat_map" where
  "chatMap_set [] k c = [(k, c)]"
| "chatMap_set ((k', c') # m) k c =
     (if k' = k then (k, c) # m else (k', c') # chatMap_set m k c)"

definition chatMap_values :: "chat_map \<Rightarrow> chat list" where
  "chatMap_values m = map snd m"

subsection \<open>Sorting with a comparator\<close>

text \<open>
  \<^verbatim>\<open>Array.prototype.sort\<close> with a comparator is a stable sort: \<open>a\<close> is moved behind
  \<open>b\<close> only where the comparator is positive on \<open>(a, b)\<close>. \<open>after a b\<close> below stands
  for \<^verbatim>\<open>compare(a, b) > 0\<close>.
\<close>

fun insert_by :: "('a \<Rightarrow> 'a \<Rightarrow> bool) \<Rightarrow> 'a \<Rightarrow> 'a list \<Rightarrow> 'a list" where
  "insert_by after x [] = [x]"
| "insert_by after x (y # ys) =
     (if after x y then y # insert_by after x ys else x # y # ys)"

definition sort_by :: "('a \<Rightarrow> 'a \<Rightarrow> bool) \<Rightarrow> 'a list \<Rightarrow> 'a list" where
  "sort_by after xs = foldr (insert_by after) xs []"

subsection \<open>fetchChats\<close>

definition chatId_of :: "string \<Rightarrow> string \<Rightarrow> string" where
  "chatId_of uid other = uid @ ''_'' @ other"

definition lastTime :: "chat \<Rightarrow> int" where
  "lastTime c = (case last_message c of None \<Rightarrow> 0 | Some lm \<Rightarrow> lm_created_at lm)"

text \<open>
  One round of \<^verbatim>\<open>messages.forEach\<close>. Reading \<^verbatim>\<open>otherUser.id\<close> of a \<^verbatim>\<open>null\<close> join
  throws a \<^verbatim>\<open>TypeError\<close>.
\<close>

definition forEach_body ::
  "string \<Rightarrow> string set \<Rightarrow> chat_map \<Rightarrow> message \<Rightarrow> error + chat_map" where
  "forEach_body uid seenMessages chatMap msg =
     (case (if sender_id msg = uid then receiver msg else sender msg) of
        None \<Rightarrow> Inl TypeError
      | Some otherUser \<Rightarrow>
          let chatId = chatId_of uid (u_id otherUser);
              isSeen = (m_id msg \<in> seenMessages)
          in (case chatMap_get chatMap chatId of
                None \<Rightarrow>
                  Inr (chatMap_set chatMap chatId
                    \<lparr> c_id = chatId,
                      other_user = otherUser,
                      last_message = Some
                        \<lparr> lm_content = content msg,
                          lm_created_at = created_at msg,
                          is_seen = Some (if sender_id msg = uid then isSeen else True) \<rparr>,
                      unread_count = (if sender_id msg \<noteq> uid \<and> \<not> isSeen then 1 else 0),
                      is_unread = Some (sender_id msg \<noteq> uid \<and> \<not> isSeen) \<rparr>)
              | Some existingChat \<Rightarrow>
                  let existingTime = lastTime existingChat;
                      newTime = created_at msg
                  in if newTime > existingTime
                     then
                       let c1 = existingChat
                             \<lparr> last_message := Some
                                 \<lparr> lm_content = content msg,
                                   lm_created_at = created_at msg,
                                   is_seen = Some (if sender_id msg = uid then isSeen else True) \<rparr> \<rparr>;
                           c2 = (if sender_id msg \<noteq> uid \<and> \<not> isSeen
                                 then c1 \<lparr> unread_count := unread_count c1 + 1,
                                          is_unread := Some True \<rparr>
                                 else c1)
                       in Inr (chatMap_set chatMap chatId c2)
                     else Inr chatMap))"

fun forEach :: "string \<Rightarrow> string set \<Rightarrow> chat_map \<Rightarrow> message list \<Rightarrow> error + chat_map" where
  "forEach uid seenMessages chatMap [] = Inr chatMap"
| "forEach uid seenMessages chatMap (msg # msgs) =
     (case forEach_body uid seenMessages chatMap msg of
        Inl e \<Rightarrow> Inl e
      | Inr chatMap' \<Rightarrow> forEach uid seenMessages chatMap' msgs)"

text \<open>The comparator \<^verbatim>\<open>(a, b) => bTime - aTime\<close> of the final sort.\<close>

definition chat_after :: "chat \<Rightarrow> chat \<Rightarrow> bool" where
  "chat_after a b = (lastTime b - lastTime a > 0)"

text \<open>
  The body of the \<^verbatim>\<open>try\<close> block once the rows are there: group, then sort. \<^verbatim>\<open>messages\<close>
  may be \<^verbatim>\<open>null\<close>, in which case \<^verbatim>\<open>messages?.forEach\<close> does nothing.
\<close>

definition buildChats :: "string \<Rightarrow> string set \<Rightarrow> message list option \<Rightarrow> error + chat list" where
  "buildChats uid seenMessages messages =
     (case forEach uid seenMessages [] (case messages of None \<Rightarrow> [] | Some ms \<Rightarrow> ms) of
        Inl e \<Rightarrow> Inl e
      | Inr chatMap \<Rightarrow> Inr (sort_by chat_after (chatMap_values chatMap)))"

text \<open>
  What the two awaited calls give back: \<^verbatim>\<open>supabase.auth.getUser()\<close> an error, no user,
  or the user's id; the query an error or its rows.
\<close>

datatype auth_result = AuthError | NoUser | AuthUser string

datatype query_result = QueryError | Rows "message list option"

record screen =
  chats :: "chat list"
  isLoading :: bool

text \<open>
  \<^verbatim>\<open>fetchChats\<close>: every throw inside the \<^verbatim>\<open>try\<close> lands in the \<^verbatim>\<open>catch\<close>, which only
  logs; \<^verbatim>\<open>finally\<close> clears the loading flag on every path. \<open>seenMessages\<close> is
  \<^verbatim>\<open>seenMessagesRef.current\<close>.
\<close>

definition fetchChats ::
  "string set \<Rightarrow> auth_result \<Rightarrow> query_result \<Rightarrow> screen \<Rightarrow> screen" where
  "fetchChats seenMessages auth query s =
     (let s1 = s \<lparr> isLoading := True \<rparr>;
          s2 = (case auth of
                  AuthError \<Rightarrow> s1
                | NoUser \<Rightarrow> s1
                | AuthUser uid \<Rightarrow>
                    (case query of
                       QueryError \<Rightarrow> s1
                     | Rows messages \<Rightarrow>
                         (case buildChats uid seenMessages messages of
                            Inl e \<Rightarrow> s1
                          | Inr chatArray \<Rightarrow> s1 \<lparr> chats := chatArray \<rparr>)))
      in s2 \<lparr> isLoading := False \<rparr>)"

subsection \<open>Live events\<close>

text \<open>\<^verbatim>\<open>Array.prototype.findIndex\<close>; \<open>None\<close> stands for \<^verbatim>\<open>-1\<close>.\<close>

fun findIndex :: "('a \<Rightarrow> bool) \<Rightarrow> 'a list \<Rightarrow> nat option" where
  "findIndex P [] = None"
| "findIndex P (x # xs) =
     (if P x then Some 0 else map_option Suc (findIndex P xs))"

text \<open>
  The callback of the \<^verbatim>\<open>postgres_changes\<close> subscription in \<^verbatim>\<open>subscribeToMessages\<close>,
  registered only once \<^verbatim>\<open>currentUserId\<close> is set. \<open>payload_new\<close> is \<^verbatim>\<open>payload.new\<close>. The
  result is the new value of \<^verbatim>\<open>chats\<close> and whether \<^verbatim>\<open>fetchChats()\<close> was started.
  \<^verbatim>\<open>splice(chatIndex, 1)\<close> and \<^verbatim>\<open>unshift\<close> take the chat out and put it in front.
\<close>

definition onMessageEvent ::
  "string \<Rightarrow> string set \<Rightarrow> row option \<Rightarrow> chat list \<Rightarrow> chat list \<times> bool" where
  "onMessageEvent currentUserId seenMessages payload_new prevChats =
     (case payload_new of
        None \<Rightarrow> (prevChats, False)
      | Some msg \<Rightarrow>
          let otherUserId =
                (if sender_id msg = currentUserId then receiver_id msg else sender_id msg);
              chatId = chatId_of currentUserId otherUserId;
              isSeen = (m_id msg \<in> seenMessages)
          in (case findIndex (\<lambda>chat. c_id chat = chatId) prevChats of
                None \<Rightarrow> (prevChats, True)
              | Some chatIndex \<Rightarrow>
                  let existingChat = prevChats ! chatIndex;
                      c1 = existingChat
                        \<lparr> last_message := Some
                            \<lparr> lm_content = content msg,
                              lm_created_at = created_at msg,
                              is_seen = Some (if sender_id msg = currentUserId
                                              then isSeen else True) \<rparr> \<rparr>;
                      c2 = (if sender_id msg \<noteq> currentUserId \<and> \<not> isSeen
                            then c1 \<lparr> unread_count := unread_count c1 + 1,
                                     is_unread := Some True \<rparr>
                            else c1)
                  in (c2 # (take chatIndex prevChats @ drop (Suc chatIndex) prevChats),
                      False)))"

text \<open>
  The callback of the \<^verbatim>\<open>seen\<close> broadcast in \<^verbatim>\<open>setupMessageSeenChannel\<close>;
  \<open>payload_userId\<close> is \<^verbatim>\<open>payload.userId\<close>.
\<close>

definition onSeenEvent :: "string \<Rightarrow> string \<Rightarrow> chat list \<Rightarrow> chat list" where
  "onSeenEvent currentUserId payload_userId prevChats =
     (if payload_userId \<noteq> currentUserId
      then map (\<lambda>chat.
             if u_id (other_user chat) = payload_userId
             then chat \<lparr> last_message :=
                    (case last_message chat of
                       Some lm \<Rightarrow> Some (lm \<lparr> is_seen := Some True \<rparr>)
                     | None \<Rightarrow> None) \<rparr>
             else chat) prevChats
      else prevChats)"

subsection \<open>Properties used in the statements\<close>

text \<open>At most one summary per peer.\<close>

definition one_per_peer :: "chat list \<Rightarrow> bool" where
  "one_per_peer cs = distinct (map (\<lambda>c. u_id (other_user c)) cs)"

text \<open>A message list as the query orders it: newest first.\<close>

definition newest_first :: "message list \<Rightarrow> bool" where
  "newest_first ms = sorted_wrt (\<lambda>m m'. created_at m' \<le> created_at m) ms"

text \<open>A summary with the seen flag of its last message blanked.\<close>

definition forget_seen :: "chat \<Rightarrow> chat" where
  "forget_seen c =
     c \<lparr> last_message := map_option (\<lambda>lm. lm \<lparr> is_seen := None \<rparr>) (last_message c) \<rparr>"

text \<open>
  \<^verbatim>\<open>fetchChats\<close> fails: the authentication call gives an error, the query gives an error,
  or the build throws.
\<close>

definition fetch_fails :: "string set \<Rightarrow> auth_result \<Rightarrow> query_result \<Rightarrow> bool" where
  "fetch_fails seenMessages auth query =
     (case auth of
        AuthError \<Rightarrow> True
      | NoUser \<Rightarrow> False
      | AuthUser uid \<Rightarrow>
          (case query of
             QueryError \<Rightarrow> True
           | Rows messages \<Rightarrow> isl (buildChats uid seenMessages messages)))"

text \<open>Invariants of the chat map while \<^verbatim>\<open>forEach\<close> runs.\<close>

definition keyed :: "string \<Rightarrow> chat_map \<Rightarrow> bool" where
  "keyed uid m =
     (distinct (map fst m) \<and>
      (\<forall>p \<in> set m. fst p = chatId_of uid (u_id (other_user (snd p)))))"

definition settled :: "message list \<Rightarrow> chat_map \<Rightarrow> bool" where
  "settled msgs m =
     (\<forall>p \<in> set m. unread_count (snd p) \<le> 1 \<and>
        (\<forall>x \<in> set msgs. created_at x \<le> lastTime (snd p)))"

section \<open>Marking a message as seen (ChatComponent)\<close>

text \<open>
  The \<^verbatim>\<open>Message\<close> type of the chat view: a row with the optional fields \<^verbatim>\<open>media_url\<close>,
  \<^verbatim>\<open>media_type\<close> and \<^verbatim>\<open>is_seen\<close> (written \<open>seen_flag\<close>).
\<close>

record chat_message = row +
  media_url :: "string option"
  media_type :: "string option"
  seen_flag :: "bool option"

text \<open>A \<^verbatim>\<open>seen\<close> broadcast: the channel it goes to and its payload.\<close>

record seen_broadcast =
  channel :: string
  b_userId :: string
  b_messageIds :: "string list"

text \<open>
  The state \<^verbatim>\<open>markMessageAsSeen\<close> touches: the \<^verbatim>\<open>messages\<close> and \<^verbatim>\<open>seenMessages\<close> state of
  the component, \<^verbatim>\<open>seenMessagesRef.current\<close>, the broadcasts sent so far, and, outside the
  client, the \<^verbatim>\<open>is_seen\<close> column of the \<^verbatim>\<open>messages\<close> table (by message id).
\<close>

record chat_view =
  messages :: "chat_message list"
  seenMessages :: "string set"
  seenMessagesRef :: "string set"
  sent :: "seen_broadcast list"
  persisted_is_seen :: "string \<rightharpoonup> bool"

text \<open>
  What \<^verbatim>\<open>supabase.from('messages').update({ is_seen: true }).eq('id', messageId)\<close> does:
  the database sets the column of that row (\<open>Applied\<close>); the filter and the row
  policies match no row, which is no error and changes nothing (\<open>Unmatched\<close>); the result
  carries an error (\<open>Rejected\<close>); or the call throws (\<open>Threw\<close>). The code logs the last
  two and goes on.
\<close>

datatype update_outcome = Applied | Unmatched | Rejected | Threw

text \<open>\<^verbatim>\<open>!id\<close> for an id that is a string or \<^verbatim>\<open>null\<close>.\<close>

definition falsy :: "string option \<Rightarrow> bool" where
  "falsy x = (x = None \<or> x = Some [])"

definition broadcastMessageSeen ::
  "string option \<Rightarrow> string option \<Rightarrow> string list \<Rightarrow> chat_view \<Rightarrow> chat_view" where
  "broadcastMessageSeen currentUserId otherUserId messageIds v =
     (if falsy currentUserId \<or> falsy otherUserId \<or> length messageIds = 0 then v
      else v \<lparr> sent := sent v @
             [\<lparr> channel = ''seen:'' @ the otherUserId @ '':'' @ the currentUserId,
                b_userId = the currentUserId,
                b_messageIds = messageIds \<rparr>] \<rparr>)"

definition markMessageAsSeen ::
  "string option \<Rightarrow> string option \<Rightarrow> update_outcome \<Rightarrow> string \<Rightarrow> chat_view \<Rightarrow> chat_view" where
  "markMessageAsSeen currentUserId otherUserId outcome messageId v =
     (if falsy currentUserId \<or> falsy otherUserId then v
      else
        let newSeenMessages = insert messageId (seenMessagesRef v);
            v1 = v \<lparr> seenMessagesRef := newSeenMessages, seenMessages := newSeenMessages \<rparr>;
            v2 = (case outcome of
                    Applied \<Rightarrow>
                      v1 \<lparr> persisted_is_seen := (persisted_is_seen v1)(messageId \<mapsto> True) \<rparr>
                  | Unmatched \<Rightarrow> v1
                  | Rejected \<Rightarrow> v1
                  | Threw \<Rightarrow> v1);
            v3 = broadcastMessageSeen currentUserId otherUserId [messageId] v2
        in v3 \<lparr> messages :=
               map (\<lambda>msg. if m_id msg = messageId then msg \<lparr> seen_flag := Some True \<rparr> else msg)
                 (messages v3) \<rparr>)"

section \<open>Typing indicator (useTypingIndicator)\<close>

text \<open>
  The hook's state \<^verbatim>\<open>isOtherUserTyping\<close> and its ref \<^verbatim>\<open>typingTimeoutRef\<close>, together with
  the part of the runtime the hook uses: a clock in milliseconds and the timers that are
  pending, each a handle with the time it is due. Handles are positive numbers, so the
  test \<^verbatim>\<open>if (typingTimeoutRef.current)\<close> asks whether the ref holds one.
\<close>

record typing_hook =
  isOtherUserTyping :: bool
  typingTimeoutRef :: "nat option"
  clock :: nat
  timers :: "(nat \<times> nat) list"
  next_handle :: nat

definition clearTimeout :: "nat \<Rightarrow> typing_hook \<Rightarrow> typing_hook" where
  "clearTimeout h st = st \<lparr> timers := filter (\<lambda>t. fst t \<noteq> h) (timers st) \<rparr>"

text \<open>\<^verbatim>\<open>setTimeout(callback, delay)\<close>: the new handle and the state with the timer pending.\<close>

definition setTimeout :: "nat \<Rightarrow> typing_hook \<Rightarrow> nat \<times> typing_hook" where
  "setTimeout delay st =
     (next_handle st,
      st \<lparr> timers := timers st @ [(next_handle st, clock st + delay)],
           next_handle := Suc (next_handle st) \<rparr>)"

text \<open>
  The callback of the \<^verbatim>\<open>typing\<close> broadcast, registered once both user ids are set;
  \<open>payload_userId\<close> is \<^verbatim>\<open>payload.payload.userId\<close>.
\<close>

definition onTyping :: "string \<Rightarrow> string \<Rightarrow> typing_hook \<Rightarrow> typing_hook" where
  "onTyping otherUserId payload_userId st =
     (if payload_userId = otherUserId
      then
        let s1 = st \<lparr> isOtherUserTyping := True \<rparr>;
            s2 = (case typingTimeoutRef s1 of
                    Some h \<Rightarrow> clearTimeout h s1
                  | None \<Rightarrow> s1);
            (h', s3) = setTimeout 3000 s2
        in s3 \<lparr> typingTimeoutRef := Some h' \<rparr>
      else st)"

text \<open>
  \<open>d\<close> milliseconds pass with no broadcast: every pending timer that is due by then
  runs its callback, which is \<^verbatim>\<open>setIsOtherUserTyping(false)\<close> for every timer of
  this hook, and is pending no more.
\<close>

definition elapse :: "nat \<Rightarrow> typing_hook \<Rightarrow> typing_hook" where
  "elapse d st =
     (let t' = clock st + d;
          due = filter (\<lambda>t. snd t \<le> t') (timers st)
      in st \<lparr> clock := t',
              timers := filter (\<lambda>t. \<not> snd t \<le> t') (timers st),
              isOtherUserTyping := (if due = [] then isOtherUserTyping st else False) \<rparr>)"

text \<open>The hook when it mounts, and a run of it over broadcasts and waits.\<close>

definition hook_mounted :: "nat \<Rightarrow> typing_hook" where
  "hook_mounted t0 =
     \<lparr> isOtherUserTyping = False, typingTimeoutRef = None, clock = t0, timers = [],
       next_handle = 1 \<rparr>"

datatype hook_event = Typing string | Wait nat

fun hook_step :: "string \<Rightarrow> typing_hook \<Rightarrow> hook_event \<Rightarrow> typing_hook" where
  "hook_step otherUserId st (Typing userId) = onTyping otherUserId userId st"
| "hook_step otherUserId st (Wait d) = elapse d st"

definition hook_run :: "string \<Rightarrow> hook_event list \<Rightarrow> typing_hook \<Rightarrow> typing_hook" where
  "hook_run otherUserId evs st = foldl (hook_step otherUserId) st evs"

text \<open>Every pending timer is the one the ref holds.\<close>

definition ref_owns_timers :: "typing_hook \<Rightarrow> bool" where
  "ref_owns_timers st = (\<forall>t \<in> set (timers st). typingTimeoutRef st = Some (fst t))"

text \<open>Broadcasts from the peer, each followed by a wait of the given length.\<close>

fun signals :: "string \<Rightarrow> nat list \<Rightarrow> hook_event list" where
  "signals otherUserId [] = []"
| "signals otherUserId (d # ds) = Typing otherUserId # Wait d # signals otherUserId ds"

section \<open>Feed ranking (HomeScreen)\<close>

subsection \<open>Numbers\<close>

text \<open>
  A JavaScript number is a binary64 floating-point number. A finite one is held here as
  the rational it stands for. \<open>dbl x\<close> is the double nearest to \<open>x\<close>, ties going to the
  even significand: \<open>x\<close> is scaled by a power of two to lie between \<open>2^52\<close> and \<open>2^53\<close>,
  rounded to an integer and scaled back. The exponent is not bounded, so \<open>dbl\<close> is the
  rounding of binary64 wherever that neither overflows nor is subnormal.
\<close>

definition rne :: "rat \<Rightarrow> int" where
  "rne y =
     (let f = \<lfloor>y\<rfloor>; r = y - of_int f
      in if r < 1 / 2 then f else if 1 / 2 < r then f + 1 else if even f then f else f + 1)"

definition expo :: "rat \<Rightarrow> int" where
  "expo x =
     (let (p, q) = quotient_of x; k = bitlen p - bitlen q - 53
      in if x / 2 powi k < 2 ^ 53 then k else k + 1)"

definition dbl :: "rat \<Rightarrow> rat" where
  "dbl x =
     (if x = 0 then 0
      else let e = expo \<bar>x\<bar> in sgn x * of_int (rne (\<bar>x\<bar> / 2 powi e)) * 2 powi e)"

text \<open>The arithmetic of doubles: the exact result, rounded.\<close>

definition fmul :: "rat \<Rightarrow> rat \<Rightarrow> rat" where
  "fmul a b = dbl (a * b)"

definition fadd :: "rat \<Rightarrow> rat \<Rightarrow> rat" where
  "fadd a b = dbl (a + b)"

definition fsub :: "rat \<Rightarrow> rat \<Rightarrow> rat" where
  "fsub a b = dbl (a - b)"

definition fdiv :: "rat \<Rightarrow> rat \<Rightarrow> rat" where
  "fdiv a b = dbl (a / b)"

subsection \<open>fetchShorts: scoring and sorting\<close>

text \<open>
  A row of \<^verbatim>\<open>shortsData\<close>, with the fields the scoring reads. \<^verbatim>\<open>video_views\<close>, \<^verbatim>\<open>likes\<close>
  and \<^verbatim>\<open>comments\<close> are the aggregates of the query, arrays of \<^verbatim>\<open>{count}\<close>, held as the
  lists of their counts; \<open>s_created_at\<close> is \<^verbatim>\<open>new Date(short.created_at).getTime()\<close>.
  The scored row is the row with a \<^verbatim>\<open>score\<close>.
\<close>

record short =
  s_id :: string
  user_id :: string
  s_created_at :: int
  video_views :: "nat list"
  likes :: "nat list"
  comments :: "nat list"

record scored_short = short +
  score :: rat

text \<open>\<^verbatim>\<open>xs[0]?.count || 0\<close>, as a double.\<close>

definition first_count :: "nat list \<Rightarrow> rat" where
  "first_count xs = (case xs of [] \<Rightarrow> 0 | c # _ \<Rightarrow> dbl (of_nat c))"

definition engagementRate :: "rat \<Rightarrow> rat \<Rightarrow> rat \<Rightarrow> rat" where
  "engagementRate views' likes' comments' =
     (if views' > 0 then fdiv (fadd likes' comments') views' else 0)"

definition engagementScore :: "rat \<Rightarrow> rat \<Rightarrow> rat \<Rightarrow> rat" where
  "engagementScore views' likes' comments' =
     fadd (fadd (fadd (fmul views' (dbl (3 / 10))) (fmul likes' (dbl (3 / 10))))
                (fmul comments' (dbl (2 / 10))))
          (fmul (fmul (engagementRate views' likes' comments') (dbl 100)) (dbl (2 / 10)))"

definition followingBoost :: "string list \<Rightarrow> string \<Rightarrow> rat" where
  "followingBoost followingIds uid = (if uid \<in> set followingIds then dbl (15 / 10) else dbl 1)"

definition recencyBoost :: "int \<Rightarrow> rat" where
  "recencyBoost videoAge =
     (if videoAge < 3600000 then dbl 2
      else if videoAge < 86400000 then dbl (15 / 10)
      else if videoAge < 604800000 then dbl (12 / 10)
      else dbl 1)"

definition trendingBoost :: "rat \<Rightarrow> rat" where
  "trendingBoost views' =
     (if views' > 1000 then dbl (15 / 10)
      else if views' > 500 then dbl (13 / 10)
      else if views' > 100 then dbl (12 / 10)
      else dbl 1)"

text \<open>
  The callback of \<^verbatim>\<open>map\<close> on one row; \<open>now\<close> is what \<^verbatim>\<open>Date.now()\<close> gives in that call.
  The constants \<^verbatim>\<open>views\<close>, \<^verbatim>\<open>likes\<close> and \<^verbatim>\<open>comments\<close> are written with a prime.
\<close>

definition score_of :: "int \<Rightarrow> string list \<Rightarrow> short \<Rightarrow> rat" where
  "score_of now followingIds sh =
     (let views' = first_count (video_views sh);
          likes' = first_count (likes sh);
          comments' = first_count (comments sh);
          videoAge = now - s_created_at sh
      in fmul (fmul (fmul (engagementScore views' likes' comments')
                          (followingBoost followingIds (user_id sh)))
                    (recencyBoost videoAge))
              (trendingBoost views'))"

definition with_score :: "int \<Rightarrow> string list \<Rightarrow> short \<Rightarrow> scored_short" where
  "with_score now followingIds sh =
     \<lparr> s_id = s_id sh, user_id = user_id sh, s_created_at = s_created_at sh,
       video_views = video_views sh, likes = likes sh, comments = comments sh,
       score = score_of now followingIds sh \<rparr>"

text \<open>The comparator \<^verbatim>\<open>(a, b) => b.score - a.score\<close>.\<close>

definition short_after :: "scored_short \<Rightarrow> scored_short \<Rightarrow> bool" where
  "short_after a b = (fsub (score b) (score a) > 0)"

text \<open>
  \<^verbatim>\<open>shortsData.map\<close> calls the callback on one row after the other, and the callback reads
  \<^verbatim>\<open>Date.now()\<close> anew each time: \<open>nowAt i\<close> is the reading at the call for the row at
  index \<open>i\<close>. The sort then works on the scored rows.
\<close>

fun score_rows ::
  "(nat \<Rightarrow> int) \<Rightarrow> string list \<Rightarrow> nat \<Rightarrow> short list \<Rightarrow> scored_short list" where
  "score_rows nowAt followingIds i [] = []"
| "score_rows nowAt followingIds i (sh # shs) =
     with_score (nowAt i) followingIds sh # score_rows nowAt followingIds (Suc i) shs"

definition scoredShorts ::
  "(nat \<Rightarrow> int) \<Rightarrow> string list \<Rightarrow> short list \<Rightarrow> scored_short list" where
  "scoredShorts nowAt followingIds shortsData =
     sort_by short_after (score_rows nowAt followingIds 0 shortsData)"

text \<open>A row some of whose three counts is positive.\<close>

definition has_engagement :: "short \<Rightarrow> bool" where
  "has_engagement sh =
     (0 < first_count (video_views sh) \<or> 0 < first_count (likes sh)
      \<or> 0 < first_count (comments sh))"

section \<open>Sample values\<close>

text \<open>
  Viewer B and peers A and C; three messages between A and B at times
  \<open>1000 < 2000 < 3000\<close>, none of them seen; a row whose sender join is \<^verbatim>\<open>null\<close>.
\<close>

definition userA :: user where
  "userA = \<lparr> u_id = ''A'', username = ''alice'', fullname = ''Alice'', photo_url = ''a.png'' \<rparr>"

definition userB :: user where
  "userB = \<lparr> u_id = ''B'', username = ''bob'', fullname = ''Bob'', photo_url = ''b.png'' \<rparr>"

definition userC :: user where
  "userC = \<lparr> u_id = ''C'', username = ''carol'', fullname = ''Carol'', photo_url = ''c.png'' \<rparr>"

definition msg_t1 :: message where
  "msg_t1 = \<lparr> m_id = ''m1'', sender_id = ''A'', receiver_id = ''B'', content = ''one'',
      created_at = 1000, sender = Some userA, receiver = Some userB \<rparr>"

definition msg_t2 :: message where
  "msg_t2 = \<lparr> m_id = ''m2'', sender_id = ''B'', receiver_id = ''A'', content = ''two'',
      created_at = 2000, sender = Some userB, receiver = Some userA \<rparr>"

definition msg_t3 :: message where
  "msg_t3 = \<lparr> m_id = ''m3'', sender_id = ''A'', receiver_id = ''B'', content = ''three'',
      created_at = 3000, sender = Some userA, receiver = Some userB \<rparr>"

definition msg_null :: message where
  "msg_null = \<lparr> m_id = ''m4'', sender_id = ''C'', receiver_id = ''B'', content = ''four'',
      created_at = 4000, sender = None, receiver = Some userB \<rparr>"

definition chatBA :: chat where
  "chatBA = \<lparr> c_id = ''B_A'', other_user = userA,
      last_message = Some \<lparr> lm_content = ''three'', lm_created_at = 3000, is_seen = Some True \<rparr>,
      unread_count = 1, is_unread = Some True \<rparr>"

definition chatBC :: chat where
  "chatBC = \<lparr> c_id = ''B_C'', other_user = userC,
      last_message = Some \<lparr> lm_content = ''hi'', lm_created_at = 500, is_seen = Some False \<rparr>,
      unread_count = 0, is_unread = Some False \<rparr>"

definition event_row :: row where
  "event_row = \<lparr> m_id = ''m0'', sender_id = ''A'', receiver_id = ''B'', content = ''late'',
      created_at = 10 \<rparr>"

definition screen0 :: screen where
  "screen0 = \<lparr> chats = [], isLoading = False \<rparr>"

text \<open>
  A chat view holding message \<open>m1\<close>, not yet seen anywhere. Two pairs of feed rows, one
  owned by the followed user F and one by U, who is not followed: a pair with no views,
  likes or comments, and a pair with five likes, each row 30 minutes old at time
  \<open>2000000\<close>.
\<close>

definition view0 :: chat_view where
  "view0 = \<lparr> messages =
       [\<lparr> m_id = ''m1'', sender_id = ''A'', receiver_id = ''B'', content = ''one'',
          created_at = 1000, media_url = None, media_type = None, seen_flag = None \<rparr>],
     seenMessages = {}, seenMessagesRef = {}, sent = [],
     persisted_is_seen = [''m1'' \<mapsto> False] \<rparr>"

definition short_F0 :: short where
  "short_F0 = \<lparr> s_id = ''v1'', user_id = ''F'', s_created_at = 200000,
      video_views = [0], likes = [0], comments = [0] \<rparr>"

definition short_U0 :: short where
  "short_U0 = \<lparr> s_id = ''v2'', user_id = ''U'', s_created_at = 200000,
      video_views = [0], likes = [0], comments = [0] \<rparr>"

definition short_F5 :: short where
  "short_F5 = \<lparr> s_id = ''v3'', user_id = ''F'', s_created_at = 200000,
      video_views = [0], likes = [5], comments = [0] \<rparr>"

definition short_U5 :: short where
  "short_U5 = \<lparr> s_id = ''v4'', user_id = ''U'', s_created_at = 200000,
      video_views = [0], likes = [5], comments = [0] \<rparr>"

text \<open>
  Three clocks: one that stands still at \<open>2000000\<close>, one that ticks a millisecond from
  row to row, and one that is set forward by 24 hours between the first row and the
  second.
\<close>

definition clock_still :: "nat \<Rightarrow> int" where
  "clock_still i = 2000000"

definition clock_tick :: "nat \<Rightarrow> int" where
  "clock_tick i = 2000000 + int i"

definition clock_jump :: "nat \<Rightarrow> int" where
  "clock_jump i = 2000000 + 86400000 * int i"

section \<open>Conversation list: proofs\<close>

subsection \<open>The sort is a permutation\<close>

lemma set_insert_by: "set (insert_by after x ys) = insert x (set ys)"
  by (induction ys) auto

lemma sort_by_Cons: "sort_by after (x # xs) = insert_by after x (sort_by after xs)"
  by (simp add: sort_by_def)

lemma set_sort_by: "set (sort_by after xs) = set xs"
  by (induction xs) (simp_all add: sort_by_Cons set_insert_by, simp add: sort_by_def)

lemma distinct_insert_by:
  "distinct (map f (insert_by after x ys)) = (f x \<notin> f ` set ys \<and> distinct (map f ys))"
  by (induction ys) (auto simp: set_insert_by)

lemma distinct_sort_by: "distinct (map f (sort_by after xs)) = distinct (map f xs)"
proof (induction xs)
  case Nil
  show ?case by (simp add: sort_by_def)
next
  case (Cons x xs)
  then show ?case
    by (simp add: sort_by_Cons distinct_insert_by set_sort_by)
qed

subsection \<open>The chat map\<close>

lemma chatMap_get_Some: "chatMap_get m k = Some c \<Longrightarrow> (k, c) \<in> set m"
  by (induction m) (auto split: if_splits)

lemma chatMap_get_None: "chatMap_get m k = None \<Longrightarrow> k \<notin> fst ` set m"
  by (induction m) (force split: if_splits)+

lemma chatMap_set_new: "chatMap_get m k = None \<Longrightarrow> chatMap_set m k c = m @ [(k, c)]"
  by (induction m) (auto split: if_splits)

lemma keys_chatMap_set_old:
  "chatMap_get m k = Some c' \<Longrightarrow> map fst (chatMap_set m k c) = map fst m"
  by (induction m) (auto split: if_splits)

lemma set_chatMap_set: "p \<in> set (chatMap_set m k c) \<Longrightarrow> p = (k, c) \<or> p \<in> set m"
  by (induction m) (auto split: if_splits)

subsection \<open>One round of the loop\<close>

text \<open>
  A round that does not throw adds a summary for a new key, leaves the map as it is, or
  replaces the summary of a key whose recorded message is strictly older.
\<close>

lemma forEach_body_cases:
  assumes "forEach_body uid seen m msg = Inr m'"
  obtains
    (new) ou :: user and c :: chat where
      "chatMap_get m (chatId_of uid (u_id ou)) = None"
      "m' = m @ [(chatId_of uid (u_id ou), c)]"
      "other_user c = ou" "unread_count c \<le> 1" "lastTime c = created_at msg"
  | (same) "m' = m"
  | (newer) ou :: user and ex :: chat and c :: chat where
      "chatMap_get m (chatId_of uid (u_id ou)) = Some ex"
      "lastTime ex < created_at msg"
      "m' = chatMap_set m (chatId_of uid (u_id ou)) c"
      "other_user c = other_user ex"
proof -
  from assms obtain ou where
    ou: "(if sender_id msg = uid then receiver msg else sender msg) = Some ou"
    by (auto simp: forEach_body_def split: option.splits)
  show thesis
  proof (cases "chatMap_get m (chatId_of uid (u_id ou))")
    case None
    with assms ou show thesis
      by (intro new[of ou]) (auto simp: forEach_body_def Let_def chatMap_set_new lastTime_def)
  next
    case (Some ex)
    show thesis
    proof (cases "lastTime ex < created_at msg")
      case True
      with assms ou Some obtain c where
        "m' = chatMap_set m (chatId_of uid (u_id ou)) c" "other_user c = other_user ex"
        by (auto simp: forEach_body_def Let_def split: if_splits)
      with Some True show thesis by (intro newer[of ou ex c])
    next
      case False
      with assms ou Some show thesis
        by (intro same) (auto simp: forEach_body_def Let_def)
    qed
  qed
qed

subsection \<open>Keys and peers\<close>

lemma keyed_body:
  assumes "keyed uid m" "forEach_body uid seen m msg = Inr m'"
  shows "keyed uid m'"
  using assms(2)
proof (cases rule: forEach_body_cases)
  case (new ou c)
  from new(1) have "chatId_of uid (u_id ou) \<notin> fst ` set m" by (rule chatMap_get_None)
  with assms(1) new(2,3) show ?thesis
    by (auto simp: keyed_def)
next
  case same
  with assms(1) show ?thesis by simp
next
  case (newer ou ex c)
  let ?k = "chatId_of uid (u_id ou)"
  from newer(1) have "(?k, ex) \<in> set m" by (rule chatMap_get_Some)
  with assms(1) have k: "?k = chatId_of uid (u_id (other_user ex))"
    by (auto simp: keyed_def)
  have "distinct (map fst m')" using newer assms(1)
    by (simp add: keys_chatMap_set_old keyed_def)
  moreover have "\<forall>p \<in> set m'. fst p = chatId_of uid (u_id (other_user (snd p)))"
    using newer(3,4) k assms(1) by (auto simp: keyed_def dest!: set_chatMap_set)
  ultimately show ?thesis by (simp add: keyed_def)
qed

lemma keyed_forEach:
  "keyed uid m \<Longrightarrow> forEach uid seen m msgs = Inr m' \<Longrightarrow> keyed uid m'"
  by (induction msgs arbitrary: m) (auto split: sum.splits dest: keyed_body)

lemma keyed_one_per_peer:
  assumes "keyed uid m"
  shows "one_per_peer (chatMap_values m)"
proof -
  have eq: "map fst m = map (chatId_of uid) (map (\<lambda>p. u_id (other_user (snd p))) m)"
    using assms by (auto simp: keyed_def)
  have "distinct (map fst m)" using assms by (simp add: keyed_def)
  then have "distinct (map (chatId_of uid) (map (\<lambda>p. u_id (other_user (snd p))) m))"
    unfolding eq[symmetric] .
  then have "distinct (map (\<lambda>p. u_id (other_user (snd p))) m)"
    by (metis distinct_map)
  then show ?thesis by (simp add: one_per_peer_def chatMap_values_def comp_def)
qed

lemma buildChats_one_per_peer:
  assumes "buildChats uid seen rows = Inr cs"
  shows "one_per_peer cs"
proof -
  from assms obtain m where
    m: "forEach uid seen [] (case rows of None \<Rightarrow> [] | Some ms \<Rightarrow> ms) = Inr m"
    and cs: "cs = sort_by chat_after (chatMap_values m)"
    by (auto simp: buildChats_def split: sum.splits)
  have "keyed uid []" by (simp add: keyed_def)
  then have "keyed uid m" using m by (rule keyed_forEach)
  then have "one_per_peer (chatMap_values m)" by (rule keyed_one_per_peer)
  then show ?thesis by (simp add: cs one_per_peer_def distinct_sort_by)
qed

subsection \<open>Newest first: no later round is newer\<close>

lemma settled_body:
  assumes "settled (msg # msgs) m" "\<forall>x \<in> set msgs. created_at x \<le> created_at msg"
    "forEach_body uid seen m msg = Inr m'"
  shows "settled msgs m'"
  using assms(3)
proof (cases rule: forEach_body_cases)
  case (new ou c)
  with assms(1,2) show ?thesis by (auto simp: settled_def)
next
  case same
  with assms(1) show ?thesis by (auto simp: settled_def)
next
  case (newer ou ex c)
  from newer(1) have "(chatId_of uid (u_id ou), ex) \<in> set m" by (rule chatMap_get_Some)
  with assms(1) have "created_at msg \<le> lastTime ex" by (auto simp: settled_def)
  with newer(2) show ?thesis by simp
qed

lemma settled_forEach:
  "settled msgs m \<Longrightarrow> newest_first msgs \<Longrightarrow> forEach uid seen m msgs = Inr m'
   \<Longrightarrow> \<forall>p \<in> set m'. unread_count (snd p) \<le> 1"
proof (induction msgs arbitrary: m)
  case Nil
  then show ?case by (simp add: settled_def)
next
  case (Cons msg msgs)
  from Cons.prems(3) obtain m1 where b: "forEach_body uid seen m msg = Inr m1"
    and r: "forEach uid seen m1 msgs = Inr m'"
    by (auto split: sum.splits)
  from Cons.prems(2) have le: "\<forall>x \<in> set msgs. created_at x \<le> created_at msg"
    and nf: "newest_first msgs" by (auto simp: newest_first_def)
  from Cons.prems(1) le b have "settled msgs m1" by (rule settled_body)
  from Cons.IH[OF this nf r] show ?case .
qed

subsection \<open>The message event\<close>

lemma findIndex_find:
  "find P xs = Some c0 \<Longrightarrow>
   \<exists>i. findIndex P xs = Some i \<and> i < length xs \<and> xs ! i = c0 \<and>
       take i xs @ drop (Suc i) xs = remove1 c0 xs"
proof (induction xs)
  case Nil
  then show ?case by simp
next
  case (Cons x xs)
  show ?case
  proof (cases "P x")
    case True
    with Cons.prems show ?thesis by simp
  next
    case False
    with Cons.prems have f: "find P xs = Some c0" by simp
    then have "P c0" by (auto simp: find_Some_iff)
    with False have "x \<noteq> c0" by auto
    with Cons.IH[OF f] False show ?thesis by auto
  qed
qed

lemma findIndex_None_iff: "(findIndex P xs = None) = (\<forall>x \<in> set xs. \<not> P x)"
  by (induction xs) auto

lemma onMessageEvent_found:
  assumes "find (\<lambda>chat. c_id chat =
             chatId_of cur (if sender_id msg = cur then receiver_id msg else sender_id msg)) prev
           = Some c0"
  shows "onMessageEvent cur seen (Some msg) prev =
     (c0 \<lparr> last_message := Some
             \<lparr> lm_content = content msg, lm_created_at = created_at msg,
               is_seen = Some (sender_id msg = cur \<longrightarrow> m_id msg \<in> seen) \<rparr>,
           unread_count := unread_count c0 +
             (if sender_id msg \<noteq> cur \<and> m_id msg \<notin> seen then 1 else 0),
           is_unread := (if sender_id msg \<noteq> cur \<and> m_id msg \<notin> seen
                         then Some True else is_unread c0) \<rparr>
        # remove1 c0 prev, False)"
proof -
  from findIndex_find[OF assms] obtain i where
    "findIndex (\<lambda>chat. c_id chat =
        chatId_of cur (if sender_id msg = cur then receiver_id msg else sender_id msg)) prev
     = Some i"
    "prev ! i = c0" "take i prev @ drop (Suc i) prev = remove1 c0 prev"
    by blast
  then show ?thesis
    by (simp add: onMessageEvent_def Let_def)
qed

lemma distinct_map_remove1:
  "distinct (map f xs) \<Longrightarrow> x \<in> set xs \<Longrightarrow>
   distinct (map f (remove1 x xs)) \<and> f x \<notin> f ` set (remove1 x xs)"
proof (induction xs)
  case Nil
  then show ?case by simp
next
  case (Cons y ys)
  show ?case
  proof (cases "x = y")
    case True
    with Cons.prems show ?thesis by simp
  next
    case False
    with Cons.prems have "x \<in> set ys" "distinct (map f ys)" by auto
    from Cons.IH[OF this(2,1)] Cons.prems False show ?thesis
      using set_remove1_subset[of x ys] by (auto simp: image_iff)
  qed
qed

lemma one_per_peer_onMessageEvent:
  assumes "one_per_peer cs"
  shows "one_per_peer (fst (onMessageEvent cur seen ev cs))"
proof (cases ev)
  case None
  with assms show ?thesis by (simp add: onMessageEvent_def)
next
  case (Some msg)
  let ?P = "\<lambda>chat. c_id chat =
     chatId_of cur (if sender_id msg = cur then receiver_id msg else sender_id msg)"
  show ?thesis
  proof (cases "find ?P cs")
    case None
    then have "findIndex ?P cs = None"
      by (simp add: findIndex_None_iff find_None_iff)
    with assms Some show ?thesis by (simp add: onMessageEvent_def Let_def)
  next
    case found: (Some c0)
    then have "c0 \<in> set cs" by (auto simp: find_Some_iff)
    with assms have "distinct (map (\<lambda>c. u_id (other_user c)) (remove1 c0 cs)) \<and>
       u_id (other_user c0) \<notin> (\<lambda>c. u_id (other_user c)) ` set (remove1 c0 cs)"
      unfolding one_per_peer_def by (intro distinct_map_remove1)
    with onMessageEvent_found[OF found] Some show ?thesis
      by (simp add: one_per_peer_def)
  qed
qed

lemma peers_onSeenEvent:
  "map (\<lambda>c. u_id (other_user c)) (onSeenEvent cur p cs) = map (\<lambda>c. u_id (other_user c)) cs"
  by (simp add: onSeenEvent_def)

subsection \<open>Unfolding the build on concrete rows\<close>

lemmas build_defs = fetchChats_def buildChats_def forEach_body_def chatId_of_def lastTime_def
  sort_by_def chatMap_values_def chat_after_def Let_def

lemmas sample_defs = userA_def userB_def userC_def msg_t1_def msg_t2_def msg_t3_def
  msg_null_def chatBA_def chatBC_def event_row_def screen0_def

subsection \<open>The claims about the conversation list\<close>




text \<open>
  C5: when the peer key of a message event already has a summary in the list, the
  handler replaces that summary's last message by the event's (content and timestamp,
  without comparing timestamps), adds one to its unread counter exactly when the message
  was not sent by the viewer and its id is not in the seen set, and puts the summary at
  position 0; the rest of the list is the old list without that summary, in the old
  order. No rebuild is started.
\<close>

theorem onMessageEvent_existing_chat:
  assumes "find (\<lambda>chat. c_id chat =
             chatId_of cur (if sender_id msg = cur then receiver_id msg else sender_id msg)) prev
           = Some c0"
  shows "onMessageEvent cur seen (Some msg) prev =
     (c0 \<lparr> last_message := Some
             \<lparr> lm_content = content msg, lm_created_at = created_at msg,
               is_seen = Some (sender_id msg = cur \<longrightarrow> m_id msg \<in> seen) \<rparr>,
           unread_count := unread_count c0 +
             (if sender_id msg \<noteq> cur \<and> m_id msg \<notin> seen then 1 else 0),
           is_unread := (if sender_id msg \<noteq> cur \<and> m_id msg \<notin> seen
                         then Some True else is_unread c0) \<rparr>
        # remove1 c0 prev, False)"
  using assms by (rule onMessageEvent_found)

theorem onMessageEvent_existing_chat_witness:
  "find (\<lambda>chat. c_id chat = chatId_of ''B'' ''A'') [chatBC, chatBA] = Some chatBA \<and>
   onMessageEvent ''B'' {} (Some event_row) [chatBC, chatBA] =
     ([chatBA \<lparr> last_message := Some
                 \<lparr> lm_content = ''late'', lm_created_at = 10, is_seen = Some True \<rparr>,
               unread_count := 2 \<rparr>, chatBC], False)"
proof -
  have f: "find (\<lambda>chat. c_id chat = chatId_of ''B''
        (if sender_id event_row = ''B'' then receiver_id event_row else sender_id event_row))
      [chatBC, chatBA] = Some chatBA"
    by (simp add: chatId_of_def sample_defs)
  from onMessageEvent_existing_chat[OF f, of "{}"] f show ?thesis
    by (simp add: chatId_of_def sample_defs)
qed

text \<open>
  C6: a seen broadcast naming peer \<open>p\<close> changes nothing but seen flags: with the seen
  flags blanked the list is the same before and after, so the order and every unread
  counter are as they were; a summary whose peer is not \<open>p\<close> is unchanged altogether;
  a summary whose peer is \<open>p\<close> gets the seen flag of its last message (if it has one)
  set to true. The handler ignores a broadcast that names the viewer itself.
\<close>

theorem onSeenEvent_frame:
  "map forget_seen (onSeenEvent cur p cs) = map forget_seen cs
   \<and> map unread_count (onSeenEvent cur p cs) = map unread_count cs
   \<and> length (onSeenEvent cur p cs) = length cs
   \<and> (\<forall>i < length cs. u_id (other_user (cs ! i)) \<noteq> p \<longrightarrow>
         onSeenEvent cur p cs ! i = cs ! i)
   \<and> (\<forall>i < length cs. u_id (other_user (cs ! i)) = p \<and> p \<noteq> cur \<longrightarrow>
         onSeenEvent cur p cs ! i =
           (cs ! i) \<lparr> last_message :=
              map_option (\<lambda>lm. lm \<lparr> is_seen := Some True \<rparr>) (last_message (cs ! i)) \<rparr>)
   \<and> (p = cur \<longrightarrow> onSeenEvent cur p cs = cs)"
  by (auto simp: onSeenEvent_def forget_seen_def split: option.splits)

theorem onSeenEvent_frame_witness:
  "onSeenEvent ''B'' ''C'' [chatBC, chatBA] ! 0 =
     chatBC \<lparr> last_message := Some
                \<lparr> lm_content = ''hi'', lm_created_at = 500, is_seen = Some True \<rparr> \<rparr>
   \<and> onSeenEvent ''B'' ''C'' [chatBC, chatBA] ! 1 = chatBA
   \<and> map unread_count (onSeenEvent ''B'' ''C'' [chatBC, chatBA]) = [0, 1]"
proof -
  note t = onSeenEvent_frame[of "''B''" "''C''" "[chatBC, chatBA]"]
  from t have "map unread_count (onSeenEvent ''B'' ''C'' [chatBC, chatBA]) = [0, 1]"
    by (simp add: sample_defs)
  moreover from t have "\<forall>i < length [chatBC, chatBA].
      u_id (other_user ([chatBC, chatBA] ! i)) \<noteq> ''C'' \<longrightarrow>
      onSeenEvent ''B'' ''C'' [chatBC, chatBA] ! i = [chatBC, chatBA] ! i"
    by blast
  then have "onSeenEvent ''B'' ''C'' [chatBC, chatBA] ! 1 = chatBA"
    by (elim allE[of _ 1]) (simp add: sample_defs)
  moreover from t have "\<forall>i < length [chatBC, chatBA].
      u_id (other_user ([chatBC, chatBA] ! i)) = ''C'' \<and> ''C'' \<noteq> ''B'' \<longrightarrow>
      onSeenEvent ''B'' ''C'' [chatBC, chatBA] ! i = ([chatBC, chatBA] ! i)
        \<lparr> last_message := map_option (\<lambda>lm. lm \<lparr> is_seen := Some True \<rparr>)
             (last_message ([chatBC, chatBA] ! i)) \<rparr>"
    by blast
  then have "onSeenEvent ''B'' ''C'' [chatBC, chatBA] ! 0 =
     chatBC \<lparr> last_message := Some
                \<lparr> lm_content = ''hi'', lm_created_at = 500, is_seen = Some True \<rparr> \<rparr>"
    by (elim allE[of _ 0]) (simp add: sample_defs)
  ultimately show ?thesis by simp
qed

text \<open>
  C8: when the conversation fetch fails (the authentication call gives an error, the
  query gives an error, or the build throws), \<^verbatim>\<open>fetchChats\<close> still returns, the summary
  list is the one held before the call, and the loading flag is cleared.
\<close>

theorem fetchChats_failure_keeps_chats:
  "fetch_fails seen auth query \<Longrightarrow>
     chats (fetchChats seen auth query s) = chats s
     \<and> isLoading (fetchChats seen auth query s) = False"
  by (auto simp: fetch_fails_def fetchChats_def isl_def
           split: auth_result.splits query_result.splits)

theorem fetchChats_failure_keeps_chats_witness:
  "fetch_fails {} (AuthUser ''B'') (Rows (Some [msg_null, msg_t3])) \<and>
   chats (fetchChats {} (AuthUser ''B'') (Rows (Some [msg_null, msg_t3]))
            \<lparr> chats = [chatBA], isLoading = False \<rparr>) = [chatBA]"
proof -
  have f: "fetch_fails {} (AuthUser ''B'') (Rows (Some [msg_null, msg_t3]))"
    by (simp add: fetch_fails_def buildChats_def forEach_body_def sample_defs)
  from fetchChats_failure_keeps_chats[OF f, of "\<lparr> chats = [chatBA], isLoading = False \<rparr>"] f
  show ?thesis by simp
qed

text \<open>
  C9: when the rows are ordered newest first, every summary the build produces has an
  unread counter of at most 1, whatever the seen set holds (the empty set included): a
  later row is never strictly newer than the one a summary records.
\<close>

theorem buildChats_unread_le_1:
  assumes "newest_first msgs" "buildChats uid seen (Some msgs) = Inr cs"
  shows "\<forall>c \<in> set cs. unread_count c \<le> 1"
proof -
  from assms(2) obtain m where
    m: "forEach uid seen [] msgs = Inr m" and cs: "cs = sort_by chat_after (chatMap_values m)"
    by (auto simp: buildChats_def split: sum.splits)
  have "settled msgs []" by (simp add: settled_def)
  from settled_forEach[OF this assms(1) m] show ?thesis
    by (auto simp: cs set_sort_by chatMap_values_def)
qed

theorem buildChats_unread_le_1_witness:
  "newest_first [msg_t3, msg_t2, msg_t1] \<and>
   buildChats ''B'' {} (Some [msg_t3, msg_t2, msg_t1]) = Inr [chatBA] \<and>
   unread_count chatBA \<le> 1"
proof -
  have n: "newest_first [msg_t3, msg_t2, msg_t1]" by (simp add: newest_first_def sample_defs)
  have b: "buildChats ''B'' {} (Some [msg_t3, msg_t2, msg_t1]) = Inr [chatBA]"
    by (simp add: build_defs sample_defs)
  from buildChats_unread_le_1[OF n b] n b show ?thesis by simp
qed

text \<open>
  C10: a list with at most one summary per peer stays so under \<^verbatim>\<open>fetchChats\<close>, under
  the message event handler and under the seen event handler; and whatever the build
  returns has at most one summary per peer.
\<close>

theorem one_per_peer_preserved:
  assumes "one_per_peer (chats s)"
  shows "one_per_peer (chats (fetchChats seen auth query s))
       \<and> one_per_peer (fst (onMessageEvent cur seen ev (chats s)))
       \<and> one_per_peer (onSeenEvent cur p (chats s))
       \<and> (\<forall>cs. buildChats uid seen rows = Inr cs \<longrightarrow> one_per_peer cs)"
proof -
  have "one_per_peer (chats (fetchChats seen auth query s))"
    using assms
    by (auto simp: fetchChats_def Let_def
             split: auth_result.splits query_result.splits sum.splits
             dest: buildChats_one_per_peer)
  moreover have "one_per_peer (fst (onMessageEvent cur seen ev (chats s)))"
    using assms by (rule one_per_peer_onMessageEvent)
  moreover have "one_per_peer (onSeenEvent cur p (chats s))"
    using assms by (simp add: one_per_peer_def peers_onSeenEvent)
  moreover have "\<forall>cs. buildChats uid seen rows = Inr cs \<longrightarrow> one_per_peer cs"
    by (auto dest: buildChats_one_per_peer)
  ultimately show ?thesis by simp
qed

theorem one_per_peer_preserved_witness:
  "one_per_peer [chatBC, chatBA]
   \<and> one_per_peer (chats (fetchChats {} (AuthUser ''B'') (Rows (Some [msg_t3, msg_t2, msg_t1]))
        \<lparr> chats = [chatBC, chatBA], isLoading = False \<rparr>))
   \<and> one_per_peer (fst (onMessageEvent ''B'' {} (Some event_row) [chatBC, chatBA]))
   \<and> one_per_peer (onSeenEvent ''B'' ''C'' [chatBC, chatBA])"
proof -
  have o: "one_per_peer (chats \<lparr> chats = [chatBC, chatBA], isLoading = False \<rparr>)"
    by (simp add: one_per_peer_def sample_defs)
  from one_per_peer_preserved[OF o, where seen = "{}" and auth = "AuthUser ''B''"
      and query = "Rows (Some [msg_t3, msg_t2, msg_t1])" and cur = "''B''"
      and ev = "Some event_row" and p = "''C''"] o
  show ?thesis by simp
qed

section \<open>Marking a message as seen: proofs\<close>

text \<open>
  C4, as the specification gives it: after every completed \<^verbatim>\<open>markMessageAsSeen(messageId)\<close>
  the id is in the local seen set if and only if the persisted \<^verbatim>\<open>is_seen\<close> of the message
  is true. When the update is rejected this is false: the id is in the set and the
  column is still false.
\<close>

theorem markMessageAsSeen_rejected_disagree:
  "''m1'' \<in> seenMessagesRef
       (markMessageAsSeen (Some ''B'') (Some ''A'') Rejected ''m1'' view0)
   \<and> persisted_is_seen
       (markMessageAsSeen (Some ''B'') (Some ''A'') Rejected ''m1'' view0) ''m1'' = Some False"
  by (simp add: markMessageAsSeen_def broadcastMessageSeen_def falsy_def view0_def Let_def)

text \<open>
  C4, amended: after \<^verbatim>\<open>markMessageAsSeen(messageId)\<close> with both user ids set, the id is in
  the local seen set (ref and state alike), and the persisted \<^verbatim>\<open>is_seen\<close> of the message
  is true exactly when the database applied the update or the column was true already;
  when the update matched no row, was rejected or threw, the column is left as it was
  and the local set is the only record.
\<close>

theorem markMessageAsSeen_seen:
  assumes "\<not> falsy currentUserId" "\<not> falsy otherUserId"
  shows "messageId \<in> seenMessagesRef
            (markMessageAsSeen currentUserId otherUserId outcome messageId v)
    \<and> seenMessages (markMessageAsSeen currentUserId otherUserId outcome messageId v)
        = seenMessagesRef (markMessageAsSeen currentUserId otherUserId outcome messageId v)
    \<and> (persisted_is_seen
          (markMessageAsSeen currentUserId otherUserId outcome messageId v) messageId
          = Some True)
        = (outcome = Applied \<or> persisted_is_seen v messageId = Some True)
    \<and> (outcome \<noteq> Applied \<longrightarrow>
          persisted_is_seen (markMessageAsSeen currentUserId otherUserId outcome messageId v)
          = persisted_is_seen v)"
  using assms
  by (cases outcome) (simp_all add: markMessageAsSeen_def broadcastMessageSeen_def Let_def)

theorem markMessageAsSeen_seen_witness:
  "''m1'' \<in> seenMessagesRef (markMessageAsSeen (Some ''B'') (Some ''A'') Applied ''m1'' view0)
   \<and> persisted_is_seen
        (markMessageAsSeen (Some ''B'') (Some ''A'') Applied ''m1'' view0) ''m1'' = Some True
   \<and> persisted_is_seen
        (markMessageAsSeen (Some ''B'') (Some ''A'') Rejected ''m1'' view0) ''m1'' = Some False"
proof -
  have f: "\<not> falsy (Some ''B'')" "\<not> falsy (Some ''A'')" by (simp_all add: falsy_def)
  from markMessageAsSeen_seen[OF f, of "''m1''" Applied view0]
    markMessageAsSeen_seen[OF f, of "''m1''" Rejected view0]
  show ?thesis by (simp add: view0_def)
qed

section \<open>Typing indicator: proofs\<close>

lemma ref_owns_onTyping: "ref_owns_timers st \<Longrightarrow> ref_owns_timers (onTyping other u st)"
  by (auto simp: ref_owns_timers_def onTyping_def setTimeout_def clearTimeout_def Let_def
           split: option.splits)

lemma ref_owns_elapse: "ref_owns_timers st \<Longrightarrow> ref_owns_timers (elapse d st)"
  by (auto simp: ref_owns_timers_def elapse_def Let_def)

lemma ref_owns_run: "ref_owns_timers st \<Longrightarrow> ref_owns_timers (hook_run other evs st)"
proof (induction evs arbitrary: st)
  case Nil
  then show ?case by (simp add: hook_run_def)
next
  case (Cons ev evs)
  have "ref_owns_timers (hook_step other st ev)"
    using Cons.prems by (cases ev) (simp_all add: ref_owns_onTyping ref_owns_elapse)
  from Cons.IH[OF this] show ?case by (simp add: hook_run_def)
qed

lemma ref_owns_mounted: "ref_owns_timers (hook_mounted t0)"
  by (simp add: ref_owns_timers_def hook_mounted_def)

lemma timers_onTyping:
  assumes "ref_owns_timers st"
  shows "timers (onTyping other other st) = [(next_handle st, clock st + 3000)]"
    and "isOtherUserTyping (onTyping other other st)"
    and "clock (onTyping other other st) = clock st"
proof -
  show "timers (onTyping other other st) = [(next_handle st, clock st + 3000)]"
  proof (cases "typingTimeoutRef st")
    case None
    with assms have "timers st = []"
      by (cases "timers st") (auto simp: ref_owns_timers_def)
    with None show ?thesis
      by (simp add: onTyping_def setTimeout_def Let_def)
  next
    case (Some h)
    with assms have "filter (\<lambda>t. fst t \<noteq> h) (timers st) = []"
      by (auto simp: ref_owns_timers_def filter_empty_conv)
    with Some show ?thesis
      by (simp add: onTyping_def setTimeout_def clearTimeout_def Let_def)
  qed
  show "isOtherUserTyping (onTyping other other st)"
    by (simp add: onTyping_def setTimeout_def clearTimeout_def Let_def split: option.splits)
  show "clock (onTyping other other st) = clock st"
    by (simp add: onTyping_def setTimeout_def clearTimeout_def Let_def split: option.splits)
qed

lemma typing_after_signal:
  assumes "ref_owns_timers st"
  shows "isOtherUserTyping (elapse d (onTyping other other st)) = (d < 3000)"
  using timers_onTyping[OF assms, of other]
  by (auto simp: elapse_def Let_def)

lemma typing_kept:
  assumes "ref_owns_timers st" "\<forall>d \<in> set ds. d < 3000" "ds \<noteq> []"
  shows "isOtherUserTyping (hook_run other (signals other ds) st)"
  using assms
proof (induction ds arbitrary: st)
  case Nil
  then show ?case by simp
next
  case (Cons d ds)
  let ?s = "elapse d (onTyping other other st)"
  have o: "ref_owns_timers ?s" using Cons.prems(1) by (simp add: ref_owns_onTyping ref_owns_elapse)
  have run: "hook_run other (signals other (d # ds)) st = hook_run other (signals other ds) ?s"
    by (simp add: hook_run_def)
  show ?case
  proof (cases ds)
    case Nil
    with Cons.prems typing_after_signal[OF Cons.prems(1), of d other] show ?thesis
      by (simp add: hook_run_def)
  next
    case (Cons d' ds')
    with Cons.IH[OF o] Cons.prems(2) run show ?thesis by simp
  qed
qed

text \<open>
  C7: in every state the hook reaches from its mount, a typing broadcast from the peer
  sets the indicator; with no further broadcast the indicator is still set after
  \<open>d\<close> milliseconds exactly when \<open>d < 3000\<close>, whatever timer was pending before, so each
  broadcast starts the three seconds anew; and the indicator is set at the end of every
  run of broadcasts from the peer that come less than 3000 milliseconds apart. A
  broadcast from anyone else changes nothing.
\<close>

theorem typing_indicator:
  "isOtherUserTyping (onTyping other other (hook_run other evs (hook_mounted t0)))
   \<and> (\<forall>d. isOtherUserTyping
             (elapse d (onTyping other other (hook_run other evs (hook_mounted t0))))
           = (d < 3000))
   \<and> (\<forall>ds. ds \<noteq> [] \<and> (\<forall>d \<in> set ds. d < 3000) \<longrightarrow>
         isOtherUserTyping
           (hook_run other (signals other ds) (hook_run other evs (hook_mounted t0))))
   \<and> (\<forall>u. u \<noteq> other \<longrightarrow>
         onTyping other u (hook_run other evs (hook_mounted t0))
         = hook_run other evs (hook_mounted t0))"
proof -
  have o: "ref_owns_timers (hook_run other evs (hook_mounted t0))"
    by (intro ref_owns_run ref_owns_mounted)
  show ?thesis
    using timers_onTyping(2)[OF o] typing_after_signal[OF o] typing_kept[OF o]
    by (simp add: onTyping_def)
qed

theorem typing_indicator_witness:
  "isOtherUserTyping
     (elapse 2999 (onTyping ''A'' ''A'' (hook_run ''A'' [Typing ''A'', Wait 2000] (hook_mounted 0))))
   \<and> \<not> isOtherUserTyping
     (elapse 3000 (onTyping ''A'' ''A'' (hook_run ''A'' [Typing ''A'', Wait 2000] (hook_mounted 0))))
   \<and> isOtherUserTyping
     (hook_run ''A'' (signals ''A'' [2999, 2000, 2500])
        (hook_run ''A'' [Typing ''A'', Wait 2000] (hook_mounted 0)))"
proof -
  note t = typing_indicator[of "''A''" "[Typing ''A'', Wait 2000]" 0]
  from t have a: "\<forall>d. isOtherUserTyping
      (elapse d (onTyping ''A'' ''A'' (hook_run ''A'' [Typing ''A'', Wait 2000] (hook_mounted 0))))
      = (d < 3000)"
    by blast
  from t have b: "\<forall>ds. ds \<noteq> [] \<and> (\<forall>d \<in> set ds. d < 3000) \<longrightarrow>
      isOtherUserTyping (hook_run ''A'' (signals ''A'' ds)
        (hook_run ''A'' [Typing ''A'', Wait 2000] (hook_mounted 0)))"
    by blast
  from a have "isOtherUserTyping
     (elapse 2999 (onTyping ''A'' ''A'' (hook_run ''A'' [Typing ''A'', Wait 2000] (hook_mounted 0))))"
    by simp
  moreover from a have "\<not> isOtherUserTyping
     (elapse 3000 (onTyping ''A'' ''A'' (hook_run ''A'' [Typing ''A'', Wait 2000] (hook_mounted 0))))"
    by simp
  moreover from b have "isOtherUserTyping
     (hook_run ''A'' (signals ''A'' [2999, 2000, 2500])
        (hook_run ''A'' [Typing ''A'', Wait 2000] (hook_mounted 0)))"
    by (elim allE[of _ "[2999, 2000, 2500]"]) simp
  ultimately show ?thesis by simp
qed

section \<open>Feed ranking: proofs\<close>

subsection \<open>Rounding\<close>

lemma rne_err: "\<bar>of_int (rne y) - y\<bar> \<le> 1/2"
proof -
  define f where "f = \<lfloor>y\<rfloor>"
  have a: "of_int f \<le> y" "y < of_int f + 1" unfolding f_def by linarith+
  have "rne y = (if y - of_int f < 1/2 then f else if 1/2 < y - of_int f then f + 1
                 else if even f then f else f + 1)"
    by (simp add: rne_def Let_def f_def)
  with a show ?thesis by (auto simp: abs_if)
qed

lemma pow2_pos: "0 < (2::rat) powi k" by simp

lemma bitlen_quot:
  fixes p q :: int
  assumes "0 < p" "0 < q"
  shows "(2::rat) powi (bitlen p - bitlen q - 1) < of_int p / of_int q"
    and "of_int p / of_int q < (2::rat) powi (bitlen p - bitlen q + 1)"
proof -
  from bitlen_bounds[OF assms(1)] have p1: "(2::int) ^ nat (bitlen p - 1) \<le> p"
    and p2: "p < 2 ^ nat (bitlen p)" by auto
  from bitlen_bounds[OF assms(2)] have q1: "(2::int) ^ nat (bitlen q - 1) \<le> q"
    and q2: "q < 2 ^ nat (bitlen q)" by auto
  have bp: "1 \<le> bitlen p" and bq: "1 \<le> bitlen q" using assms by (auto simp: bitlen_alt_def)
  have P1: "(2::rat) powi (bitlen p - 1) \<le> of_int p"
  proof -
    have "(of_int ((2::int) ^ nat (bitlen p - 1)) :: rat) \<le> of_int p" using p1 by (simp only: of_int_le_iff)
    then show ?thesis using bp by (simp add: power_int_def)
  qed
  have P2: "of_int p < (2::rat) powi (bitlen p)"
  proof -
    have "(of_int p :: rat) < of_int ((2::int) ^ nat (bitlen p))" using p2 by (simp only: of_int_less_iff)
    then show ?thesis using bp by (simp add: power_int_def)
  qed
  have Q1: "(2::rat) powi (bitlen q - 1) \<le> of_int q"
  proof -
    have "(of_int ((2::int) ^ nat (bitlen q - 1)) :: rat) \<le> of_int q" using q1 by (simp only: of_int_le_iff)
    then show ?thesis using bq by (simp add: power_int_def)
  qed
  have Q2: "of_int q < (2::rat) powi (bitlen q)"
  proof -
    have "(of_int q :: rat) < of_int ((2::int) ^ nat (bitlen q))" using q2 by (simp only: of_int_less_iff)
    then show ?thesis using bq by (simp add: power_int_def)
  qed
  have qpos: "(0::rat) < of_int q" using assms by simp
  have ppos: "(0::rat) < of_int p" using assms by simp
  have "(2::rat) powi (bitlen p - bitlen q - 1) = 2 powi (bitlen p - 1) / 2 powi (bitlen q)"
    by (simp add: power_int_diff)
  also have "\<dots> < of_int p / of_int q"
    using P1 Q2 qpos ppos by (intro frac_less2) (auto simp: pow2_pos)
  finally show "(2::rat) powi (bitlen p - bitlen q - 1) < of_int p / of_int q" .
  have "of_int p / of_int q < (2::rat) powi (bitlen p) / 2 powi (bitlen q - 1)"
    using P2 Q1 qpos ppos by (intro frac_less) (auto simp: pow2_pos)
  also have "\<dots> = 2 powi (bitlen p - bitlen q + 1)"
    by (simp add: power_int_diff power_int_add)
  finally show "of_int p / of_int q < (2::rat) powi (bitlen p - bitlen q + 1)" .
qed


lemma expo_bounds:
  assumes "0 < x"
  shows "2 ^ 52 \<le> x / 2 powi (expo x)" and "x / 2 powi (expo x) < 2 ^ 53"
proof -
  obtain p q where pq: "quotient_of x = (p, q)" by (cases "quotient_of x")
  then have q: "0 < q" by (rule quotient_of_denom_pos)
  from pq have x: "x = of_int p / of_int q" by (rule quotient_of_div)
  with assms q have p: "0 < p" by (simp add: zero_less_divide_iff)
  define k where "k = bitlen p - bitlen q - 53"
  have e: "expo x = (if x / 2 powi k < 2 ^ 53 then k else k + 1)"
    by (simp add: expo_def pq k_def Let_def)
  from bitlen_quot[OF p q] have lo: "(2::rat) powi (k + 52) < x" and hi: "x < 2 powi (k + 54)"
    by (simp_all add: x k_def algebra_simps)
  have k52: "(2::rat) powi (k + 52) = 2 powi k * 2 ^ 52"
    and k54: "(2::rat) powi (k + 54) = 2 powi k * 2 ^ 54"
    and k1: "(2::rat) powi (k + 1) = 2 powi k * 2"
    by (simp_all add: power_int_add)
  have pos: "(0::rat) < 2 powi k" by simp
  have lo': "2 ^ 52 < x / 2 powi k"
    using lo pos unfolding k52 by (simp add: pos_less_divide_eq mult.commute)
  have hi': "x / 2 powi k < 2 ^ 54"
    using hi pos unfolding k54 by (simp add: pos_divide_less_eq mult.commute)
  show "2 ^ 52 \<le> x / 2 powi (expo x)"
  proof (cases "x / 2 powi k < 2 ^ 53")
    case True
    with lo' show ?thesis by (simp add: e)
  next
    case False
    then have "2 ^ 53 \<le> x / 2 powi k" by simp
    then have "2 ^ 52 \<le> x / 2 powi k / 2" by simp
    with False show ?thesis by (simp add: e k1)
  qed
  show "x / 2 powi (expo x) < 2 ^ 53"
  proof (cases "x / 2 powi k < 2 ^ 53")
    case True
    then show ?thesis by (simp add: e)
  next
    case False
    from hi' have "x / 2 powi k / 2 < 2 ^ 53" by simp
    with False show ?thesis by (simp add: e k1)
  qed
qed

lemma dbl_err_pos:
  assumes "0 < x"
  shows "\<bar>dbl x - x\<bar> \<le> x / 2 ^ 53"
proof -
  define e where "e = expo x"
  define y where "y = x / 2 powi e"
  have pos: "(0::rat) < 2 powi e" by simp
  have xy: "x = y * 2 powi e" by (simp add: y_def)
  from expo_bounds(1)[OF assms] have y52: "2 ^ 52 \<le> y" by (simp add: y_def e_def)
  have d: "dbl x = of_int (rne y) * 2 powi e"
    using assms by (simp add: dbl_def Let_def y_def e_def)
  have yx: "y * 2 powi e = x" by (simp add: y_def)
  have "dbl x - x = (of_int (rne y) - y) * 2 powi e"
    by (simp add: left_diff_distrib d yx)
  then have "\<bar>dbl x - x\<bar> = \<bar>of_int (rne y) - y\<bar> * 2 powi e"
    by (simp add: abs_mult)
  also have "\<dots> \<le> 1/2 * 2 powi e"
    using rne_err[of y] pos by (intro mult_right_mono) simp_all
  also have "\<dots> \<le> y / 2 ^ 53 * 2 powi e"
    using y52 pos by (intro mult_right_mono) simp_all
  also have "\<dots> = x / 2 ^ 53" using yx by (simp add: field_simps)
  finally show ?thesis .
qed

lemma dbl_bounds:
  assumes "0 < x"
  shows "x * (1 - 1 / 2 ^ 53) \<le> dbl x" and "dbl x \<le> x * (1 + 1 / 2 ^ 53)"
proof -
  from dbl_err_pos[OF assms] have "x - x / 2 ^ 53 \<le> dbl x" "dbl x \<le> x + x / 2 ^ 53"
    by linarith+
  then show "x * (1 - 1 / 2 ^ 53) \<le> dbl x" and "dbl x \<le> x * (1 + 1 / 2 ^ 53)"
    by (simp_all add: algebra_simps)
qed

lemma dbl_pos: "0 < x \<Longrightarrow> 0 < dbl x"
proof -
  assume x: "0 < x"
  then have "0 < x * (1 - 1 / 2 ^ 53)" by simp
  with dbl_bounds(1)[OF x] show ?thesis by linarith
qed

lemma dbl_zero: "dbl 0 = 0" by (simp add: dbl_def)

lemma dbl_minus: "dbl (- x) = - dbl x"
  by (simp add: dbl_def Let_def sgn_minus)

lemma dbl_pos_iff: "(0 < dbl x) = (0 < x)"
proof (cases "0 < x")
  case True
  then show ?thesis by (simp add: dbl_pos)
next
  case False
  show ?thesis
  proof (cases "x = 0")
    case True
    then show ?thesis by (simp add: dbl_zero)
  next
    case nz: False
    with False have "0 < - x" by simp
    then have "0 < dbl (- x)" by (rule dbl_pos)
    then show ?thesis using False by (simp add: dbl_minus)
  qed
qed

lemma dbl_nonneg: "0 \<le> x \<Longrightarrow> 0 \<le> dbl x"
  using dbl_pos[of x] by (cases "x = 0") (auto simp: dbl_zero)

subsection \<open>The doubles of the examples\<close>

lemma dbl_3_10: "dbl (3 / 10) = 5404319552844595 / 18014398509481984" by code_simp
lemma dbl_2_10: "dbl (2 / 10) = 3602879701896397 / 18014398509481984" by code_simp
lemma dbl_1_5: "dbl (1 / 5) = 3602879701896397 / 18014398509481984" by code_simp
lemma dbl_15_10: "dbl (15 / 10) = 3 / 2" by code_simp
lemma dbl_12_10: "dbl (12 / 10) = 5404319552844595 / 4503599627370496" by code_simp
lemma dbl_6_5: "dbl (6 / 5) = 5404319552844595 / 4503599627370496" by code_simp
lemma dbl_13_10: "dbl (13 / 10) = 5854679515581645 / 4503599627370496" by code_simp
lemma dbl_1: "dbl 1 = 1" by code_simp
lemma dbl_2: "dbl 2 = 2" by code_simp
lemma dbl_3: "dbl 3 = 3" by code_simp
lemma dbl_5: "dbl 5 = 5" by code_simp
lemma dbl_100: "dbl 100 = 100" by code_simp
lemma dbl_600: "dbl 600 = 600" by code_simp
lemma dbl_897: "dbl 897 = 897" by code_simp
lemma dbl_900: "dbl 900 = 900" by code_simp
lemma dbl_2000: "dbl 2000 = 2000" by code_simp
lemma dbl_3_2: "dbl (3 / 2) = 3 / 2" by code_simp
lemma dbl_9_4: "dbl (9 / 4) = 9 / 4" by code_simp
lemma dbl_9_2: "dbl (9 / 2) = 9 / 2" by code_simp
lemma dbl_5_times_3_10: "dbl (27021597764222975 / 18014398509481984) = 3 / 2" by code_simp
lemma dbl_2000_times_3_10: "dbl (675539944105574375 / 1125899906842624) = 600" by code_simp

lemmas dbl_values = dbl_zero dbl_minus dbl_3_10 dbl_2_10 dbl_1_5 dbl_15_10 dbl_12_10 dbl_6_5
  dbl_13_10 dbl_1 dbl_2 dbl_3 dbl_5 dbl_100 dbl_600 dbl_897 dbl_900 dbl_2000 dbl_3_2 dbl_9_4
  dbl_9_2 dbl_5_times_3_10 dbl_2000_times_3_10

lemmas score_defs = score_of_def engagementScore_def engagementRate_def followingBoost_def
  recencyBoost_def trendingBoost_def first_count_def fmul_def fadd_def fsub_def fdiv_def Let_def

lemmas sample_shorts = short_F0_def short_U0_def short_F5_def short_U5_def

subsection \<open>A followed owner scores higher\<close>

lemma first_count_nonneg: "0 \<le> first_count xs"
  by (cases xs) (simp_all add: first_count_def dbl_nonneg)

lemma fmul_nonneg: "0 \<le> a \<Longrightarrow> 0 \<le> b \<Longrightarrow> 0 \<le> fmul a b"
  by (simp add: fmul_def dbl_nonneg)

lemma fmul_pos: "0 < a \<Longrightarrow> 0 < b \<Longrightarrow> 0 < fmul a b"
  by (simp add: fmul_def dbl_pos)

lemma fadd_nonneg: "0 \<le> a \<Longrightarrow> 0 \<le> b \<Longrightarrow> 0 \<le> fadd a b"
  by (simp add: fadd_def dbl_nonneg)

lemma fadd_pos1: "0 < a \<Longrightarrow> 0 \<le> b \<Longrightarrow> 0 < fadd a b"
  by (simp add: fadd_def dbl_pos add_pos_nonneg)

lemma fadd_pos2: "0 \<le> a \<Longrightarrow> 0 < b \<Longrightarrow> 0 < fadd a b"
  by (simp add: fadd_def dbl_pos add_nonneg_pos)

lemma engagementRate_nonneg:
  "0 \<le> v \<Longrightarrow> 0 \<le> l \<Longrightarrow> 0 \<le> c \<Longrightarrow> 0 \<le> engagementRate v l c"
  by (simp add: engagementRate_def fdiv_def fadd_def dbl_nonneg)

lemma engagementScore_pos:
  assumes "0 \<le> v" "0 \<le> l" "0 \<le> c" "0 < v \<or> 0 < l \<or> 0 < c"
  shows "0 < engagementScore v l c"
proof -
  have k3: "0 < dbl (3 / 10)" and k2: "0 < dbl (2 / 10)" and k100: "0 < dbl 100"
    by (simp_all add: dbl_pos)
  let ?A = "fmul v (dbl (3 / 10))" and ?B = "fmul l (dbl (3 / 10))"
  let ?C = "fmul c (dbl (2 / 10))"
  let ?D = "fmul (fmul (engagementRate v l c) (dbl 100)) (dbl (2 / 10))"
  have A: "0 \<le> ?A" and B: "0 \<le> ?B" and C: "0 \<le> ?C"
    using assms k3 k2 by (simp_all add: fmul_nonneg)
  have D: "0 \<le> ?D"
    using engagementRate_nonneg[OF assms(1-3)] k100 k2 by (simp add: fmul_nonneg)
  have "0 < fadd (fadd ?A ?B) ?C"
  proof -
    consider "0 < v" | "0 < l" | "0 < c" using assms(4) by blast
    then show ?thesis
    proof cases
      case 1
      then have "0 < ?A" using k3 by (simp add: fmul_pos)
      then have "0 < fadd ?A ?B" using B by (rule fadd_pos1)
      then show ?thesis using C by (rule fadd_pos1)
    next
      case 2
      then have "0 < ?B" using k3 by (simp add: fmul_pos)
      with A have "0 < fadd ?A ?B" by (rule fadd_pos2)
      then show ?thesis using C by (rule fadd_pos1)
    next
      case 3
      then have "0 < ?C" using k2 by (simp add: fmul_pos)
      moreover have "0 \<le> fadd ?A ?B" using A B by (rule fadd_nonneg)
      ultimately show ?thesis by (intro fadd_pos2)
    qed
  qed
  then have "0 < fadd (fadd (fadd ?A ?B) ?C) ?D" using D by (rule fadd_pos1)
  then show ?thesis by (simp add: engagementScore_def)
qed

lemma recencyBoost_pos: "0 < recencyBoost age"
  by (simp add: recencyBoost_def dbl_pos)

lemma trendingBoost_pos: "0 < trendingBoost v"
  by (simp add: trendingBoost_def dbl_pos)

text \<open>
  A lead by a factor \<open>g\<close> survives a rounded multiplication up to a thousandth, also when
  the trailing side is multiplied by up to \<open>h\<close> times as much.
\<close>

lemma fmul_gap:
  assumes "0 < b" "g * b \<le> a" "0 < g" "0 < rb" "rb \<le> h * ra" "0 < h"
  shows "(999 / 1000 * g / h) * fmul b rb \<le> fmul a ra"
proof -
  have hra: "0 < h * ra" using assms(4,5) by linarith
  with assms(6) have ra: "0 < ra" by (simp add: zero_less_mult_iff)
  have brb: "0 < b * rb" using assms by simp
  have bra: "0 < b * ra" using assms ra by simp
  have "0 < g * b" using assms by simp
  with assms(2) have a: "0 < a" by linarith
  then have ara: "0 < a * ra" using ra by simp
  have le1: "b * rb \<le> h * (b * ra)"
  proof -
    have "b * rb \<le> b * (h * ra)" using assms(1,5) by (intro mult_left_mono) simp_all
    then show ?thesis by (simp add: mult.left_commute)
  qed
  have le2: "g * (b * ra) \<le> a * ra"
    using assms(2) ra by (simp add: mult_right_mono mult.assoc[symmetric])
  have k: "0 \<le> 999 / 1000 * g / h" using assms by simp
  have "(999 / 1000 * g / h) * fmul b rb
      \<le> (999 / 1000 * g / h) * ((b * rb) * (1 + 1 / 2 ^ 53))"
    using dbl_bounds(2)[OF brb] k by (intro mult_left_mono) (simp_all add: fmul_def)
  also have "\<dots> \<le> (999 / 1000 * g / h) * ((h * (b * ra)) * (1 + 1 / 2 ^ 53))"
    using le1 k by (intro mult_left_mono mult_right_mono) simp_all
  also have "\<dots> = (g * (b * ra)) * (999 / 1000 * (1 + 1 / 2 ^ 53))"
    using assms(6) by simp
  also have "\<dots> \<le> (g * (b * ra)) * (1 - 1 / 2 ^ 53)"
    using assms bra by (intro mult_left_mono) simp_all
  also have "\<dots> \<le> (a * ra) * (1 - 1 / 2 ^ 53)"
    using le2 by (intro mult_right_mono) simp_all
  also have "\<dots> \<le> fmul a ra" using dbl_bounds(1)[OF ara] by (simp add: fmul_def)
  finally show ?thesis .
qed

text \<open>
  The following boost of 1.5 outweighs a recency boost that is up to 4/3 times as
  large on the other side.
\<close>

lemma boosted_score_greater:
  assumes "0 < E" "0 < rq" "rq \<le> 4 / 3 * rp" "0 < t"
  shows "fmul (fmul (fmul E 1) rq) t < fmul (fmul (fmul E (3 / 2)) rp) t"
proof -
  let ?b1 = "fmul E 1" and ?a1 = "fmul E (3 / 2)"
  let ?b2 = "fmul ?b1 rq" and ?a2 = "fmul ?a1 rp"
  let ?b3 = "fmul ?b2 t" and ?a3 = "fmul ?a2 t"
  have a1: "?a1 = fmul (3 / 2 * E) 1" by (simp add: fmul_def mult.commute)
  have b1: "0 < ?b1" using assms by (simp add: fmul_pos)
  have b2: "0 < ?b2" using b1 assms by (simp add: fmul_pos)
  have b3: "0 < ?b3" using b2 assms by (simp add: fmul_pos)
  have "(999 / 1000 * (3 / 2) / 1) * ?b1 \<le> fmul (3 / 2 * E) 1"
    using assms(1) by (intro fmul_gap) simp_all
  then have g1: "(2997 / 2000) * ?b1 \<le> ?a1" by (simp add: a1)
  have "(999 / 1000 * (2997 / 2000) / (4 / 3)) * ?b2 \<le> ?a2"
    using b1 g1 assms(2,3) by (intro fmul_gap) simp_all
  then have g2: "(8982009 / 8000000) * ?b2 \<le> ?a2" by simp
  have "(999 / 1000 * (8982009 / 8000000) / 1) * ?b3 \<le> ?a3"
    using b2 g2 assms(4) by (intro fmul_gap) simp_all
  then have "(8973026991 / 8000000000) * ?b3 \<le> ?a3" by simp
  moreover have "?b3 < (8973026991 / 8000000000) * ?b3" using b3 by simp
  ultimately show ?thesis by linarith
qed

text \<open>
  Ages that differ by at most 23 hours lie in the same recency bracket or in
  neighbouring ones, and neighbouring boosts differ by a factor of at most 4/3.
\<close>

lemma recencyBoost_near:
  assumes "ap - aq \<le> 82800000"
  shows "recencyBoost aq \<le> 4 / 3 * recencyBoost ap"
proof -
  have v: "dbl 2 = 2" "dbl (15 / 10) = 3 / 2" "dbl 1 = 1"
    "dbl (12 / 10) = 5404319552844595 / 4503599627370496"
    by (rule dbl_2 dbl_15_10 dbl_1 dbl_12_10)+
  show ?thesis
    using assms unfolding recencyBoost_def v by (simp split: if_splits)
qed

lemma score_followed_greater:
  assumes "user_id p \<in> set followingIds" "user_id q \<notin> set followingIds"
    "video_views q = video_views p" "likes q = likes p" "comments q = comments p"
    "s_created_at q = s_created_at p" "has_engagement p" "np - nq \<le> 82800000"
  shows "score_of nq followingIds q < score_of np followingIds p"
proof -
  let ?E = "engagementScore (first_count (video_views p)) (first_count (likes p))
              (first_count (comments p))"
  have E: "0 < ?E"
    using assms(7)
    by (intro engagementScore_pos) (simp_all add: first_count_nonneg has_engagement_def)
  have r: "recencyBoost (nq - s_created_at p) \<le> 4 / 3 * recencyBoost (np - s_created_at p)"
    using assms(8) by (intro recencyBoost_near) simp
  from boosted_score_greater[OF E recencyBoost_pos r trendingBoost_pos] assms(1-6)
  show ?thesis
    by (simp add: score_of_def followingBoost_def Let_def dbl_values)
qed

subsection \<open>The scored rows and their order\<close>

lemma length_score_rows: "length (score_rows nowAt followingIds i xs) = length xs"
  by (induction xs arbitrary: i) simp_all

lemma nth_score_rows:
  "k < length xs \<Longrightarrow>
   score_rows nowAt followingIds i xs ! k = with_score (nowAt (i + k)) followingIds (xs ! k)"
proof (induction xs arbitrary: i k)
  case Nil
  then show ?case by simp
next
  case (Cons x xs)
  then show ?case by (cases k) simp_all
qed

lemma length_insert_by: "length (insert_by after x ys) = Suc (length ys)"
  by (induction ys) simp_all

lemma length_sort_by: "length (sort_by after xs) = length xs"
  by (induction xs) (simp_all add: sort_by_Cons length_insert_by, simp add: sort_by_def)

lemma short_after_iff: "short_after a b = (score a < score b)"
  by (simp add: short_after_def fsub_def dbl_pos_iff)

lemma sorted_insert_by_score:
  "sorted_wrt (\<lambda>a b. score b \<le> score a) ys \<Longrightarrow>
   sorted_wrt (\<lambda>a b. score b \<le> score a) (insert_by short_after x ys)"
  by (induction ys) (auto simp: short_after_iff set_insert_by)

lemma sorted_sort_by_score:
  "sorted_wrt (\<lambda>a b. score b \<le> score a) (sort_by short_after xs)"
  by (induction xs) (simp_all add: sort_by_Cons sorted_insert_by_score, simp add: sort_by_def)

lemma sorted_scoredShorts:
  "sorted_wrt (\<lambda>a b. score b \<le> score a) (scoredShorts nowAt followingIds xs)"
  unfolding scoredShorts_def by (rule sorted_sort_by_score)

lemma scored_row_in_feed:
  assumes "k < length xs"
  shows "with_score (nowAt k) followingIds (xs ! k) \<in> set (scoredShorts nowAt followingIds xs)"
proof -
  have "score_rows nowAt followingIds 0 xs ! k \<in> set (score_rows nowAt followingIds 0 xs)"
    using assms by (intro nth_mem) (simp add: length_score_rows)
  then show ?thesis
    using assms by (simp add: scoredShorts_def set_sort_by nth_score_rows)
qed

text \<open>Rows without views, likes or comments score 0, and the sort leaves ties alone.\<close>

lemma score_of_no_engagement:
  assumes "\<not> has_engagement sh"
  shows "score_of now followingIds sh = 0"
proof -
  have "first_count (video_views sh) = 0" "first_count (likes sh) = 0"
    "first_count (comments sh) = 0"
    using assms first_count_nonneg[of "video_views sh"] first_count_nonneg[of "likes sh"]
      first_count_nonneg[of "comments sh"]
    by (auto simp: has_engagement_def)
  then show ?thesis
    by (simp add: score_of_def engagementScore_def engagementRate_def fmul_def fadd_def
          fdiv_def dbl_zero Let_def)
qed

lemma sort_by_ties:
  "(\<forall>x \<in> set xs. \<forall>y \<in> set xs. \<not> after x y) \<Longrightarrow> sort_by after xs = xs"
proof (induction xs)
  case Nil
  show ?case by (simp add: sort_by_def)
next
  case (Cons x xs)
  then have "sort_by after xs = xs" by simp
  with Cons.prems show ?case by (cases xs) (simp_all add: sort_by_Cons)
qed

lemma scoredShorts_no_engagement:
  assumes "\<forall>sh \<in> set xs. \<not> has_engagement sh"
  shows "scoredShorts nowAt followingIds xs = score_rows nowAt followingIds 0 xs"
proof -
  have "score r = 0" if "r \<in> set (score_rows nowAt followingIds 0 xs)" for r
  proof -
    from that obtain k where k: "k < length xs" "r = score_rows nowAt followingIds 0 xs ! k"
      by (auto simp: in_set_conv_nth length_score_rows)
    with assms show ?thesis
      by (simp add: nth_score_rows with_score_def score_of_no_engagement)
  qed
  then show ?thesis
    unfolding scoredShorts_def by (intro sort_by_ties) (simp add: short_after_iff)
qed

subsection \<open>The claims about the ranking\<close>

text \<open>
  C2: for a viewer who follows no one, a post with 0 views, 5 likes and 0 comments that
  is 30 minutes old when it is scored has engagement score 1.5 and boosts 1.0, 2.0 and
  1.0, so its score is 3; a post with 2000 views, no likes and no comments that is 10
  days old when it is scored has engagement score 600 and boosts 1.0, 1.0 and 1.5, so
  its score is 900; and the sorted feed of the two has the second post first. This holds
  for every clock, a single evaluation instant included.
\<close>

theorem scoredShorts_example:
  "engagementScore (first_count [0]) (first_count [5]) (first_count [0]) = 3 / 2
   \<and> followingBoost [] u1 = 1 \<and> recencyBoost 1800000 = 2 \<and> trendingBoost (first_count [0]) = 1
   \<and> score_of (nowAt 0) [] \<lparr> s_id = i1, user_id = u1, s_created_at = nowAt 0 - 1800000,
        video_views = [0], likes = [5], comments = [0] \<rparr> = 3
   \<and> engagementScore (first_count [2000]) (first_count [0]) (first_count [0]) = 600
   \<and> followingBoost [] u2 = 1 \<and> recencyBoost 864000000 = 1
   \<and> trendingBoost (first_count [2000]) = 3 / 2
   \<and> score_of (nowAt 1) [] \<lparr> s_id = i2, user_id = u2, s_created_at = nowAt 1 - 864000000,
        video_views = [2000], likes = [0], comments = [0] \<rparr> = 900
   \<and> scoredShorts nowAt []
        [ \<lparr> s_id = i1, user_id = u1, s_created_at = nowAt 0 - 1800000,
            video_views = [0], likes = [5], comments = [0] \<rparr>,
          \<lparr> s_id = i2, user_id = u2, s_created_at = nowAt 1 - 864000000,
            video_views = [2000], likes = [0], comments = [0] \<rparr> ]
      = [ \<lparr> s_id = i2, user_id = u2, s_created_at = nowAt 1 - 864000000,
            video_views = [2000], likes = [0], comments = [0], score = 900 \<rparr>,
          \<lparr> s_id = i1, user_id = u1, s_created_at = nowAt 0 - 1800000,
            video_views = [0], likes = [5], comments = [0], score = 3 \<rparr> ]"
proof -
  have e1: "engagementScore (first_count [0]) (first_count [5]) (first_count [0]) = 3 / 2"
    by (simp add: score_defs dbl_values)
  have e2: "engagementScore (first_count [2000]) (first_count [0]) (first_count [0]) = 600"
    by (simp add: score_defs dbl_values)
  have b: "followingBoost [] u1 = 1" "followingBoost [] u2 = 1" "recencyBoost 1800000 = 2"
    "recencyBoost 864000000 = 1" "trendingBoost (first_count [0]) = 1"
    "trendingBoost (first_count [2000]) = 3 / 2"
    by (simp_all add: score_defs dbl_values)
  have s1: "score_of n [] \<lparr> s_id = i1, user_id = u1, s_created_at = n - 1800000,
      video_views = [0], likes = [5], comments = [0] \<rparr> = 3" for n
    by (simp add: score_defs dbl_values)
  have s2: "score_of n [] \<lparr> s_id = i2, user_id = u2, s_created_at = n - 864000000,
      video_views = [2000], likes = [0], comments = [0] \<rparr> = 900" for n
    by (simp add: score_defs dbl_values)
  have "scoredShorts nowAt []
        [ \<lparr> s_id = i1, user_id = u1, s_created_at = nowAt 0 - 1800000,
            video_views = [0], likes = [5], comments = [0] \<rparr>,
          \<lparr> s_id = i2, user_id = u2, s_created_at = nowAt 1 - 864000000,
            video_views = [2000], likes = [0], comments = [0] \<rparr> ]
      = [ \<lparr> s_id = i2, user_id = u2, s_created_at = nowAt 1 - 864000000,
            video_views = [2000], likes = [0], comments = [0], score = 900 \<rparr>,
          \<lparr> s_id = i1, user_id = u1, s_created_at = nowAt 0 - 1800000,
            video_views = [0], likes = [5], comments = [0], score = 3 \<rparr> ]"
    by (simp add: scoredShorts_def sort_by_def with_score_def short_after_iff s1 s2)
  with e1 e2 b s1 s2 show ?thesis by simp
qed

theorem scoredShorts_example_witness:
  "map score (scoredShorts clock_tick []
        [ \<lparr> s_id = ''v1'', user_id = ''U'', s_created_at = 200000,
            video_views = [0], likes = [5], comments = [0] \<rparr>,
          \<lparr> s_id = ''v2'', user_id = ''W'', s_created_at = - 861999999,
            video_views = [2000], likes = [0], comments = [0] \<rparr> ]) = [900, 3]
   \<and> map s_id (scoredShorts clock_tick []
        [ \<lparr> s_id = ''v1'', user_id = ''U'', s_created_at = 200000,
            video_views = [0], likes = [5], comments = [0] \<rparr>,
          \<lparr> s_id = ''v2'', user_id = ''W'', s_created_at = - 861999999,
            video_views = [2000], likes = [0], comments = [0] \<rparr> ]) = [''v2'', ''v1'']"
  using scoredShorts_example[of "''U''" clock_tick "''v1''" "''W''" "''v2''"]
  by (simp add: clock_tick_def)

text \<open>
  C3, as the specification gives it: of two posts with the same views, likes, comments
  and creation time, the one whose owner is followed is sorted strictly before the
  other. For two posts without views, likes or comments this is false, even on a clock
  that stands still: both score 0 and the sort leaves the unfollowed one, which came
  first, in front.
\<close>

theorem scoredShorts_zero_keeps_order:
  "map user_id (scoredShorts clock_still [''F''] [short_U0, short_F0]) = [''U'', ''F'']
   \<and> map score (scoredShorts clock_still [''F''] [short_U0, short_F0]) = [0, 0]"
  by (simp add: scoredShorts_def sort_by_def with_score_def short_after_iff score_defs
        dbl_values sample_shorts clock_still_def)

text \<open>
  The clock matters as well. Each row is scored at its own reading of the clock, so two
  posts created at the same time need not have the same age: when the clock is set
  forward by 24 hours between the two rows, the followed post with five likes is more
  than a day old when scored, the unfollowed one 30 minutes, and the unfollowed one
  stays in front with 3 against about 2.7.
\<close>

lemma dbl_27_10: "dbl (48638875975601355 / 18014398509481984)
    = 6079859496950169 / 2251799813685248"
  by code_simp

lemma dbl_27_10_again: "dbl (6079859496950169 / 2251799813685248)
    = 6079859496950169 / 2251799813685248"
  by code_simp

lemma scoredShorts_clock_set_forward:
  "map user_id (scoredShorts clock_jump [''F''] [short_U5, short_F5]) = [''U'', ''F'']
   \<and> map score (scoredShorts clock_jump [''F''] [short_U5, short_F5])
       = [3, 6079859496950169 / 2251799813685248]"
  by (simp add: scoredShorts_def sort_by_def with_score_def short_after_iff score_defs
        dbl_values dbl_27_10 dbl_27_10_again sample_shorts clock_jump_def)

text \<open>
  C3, amended: take two posts of the fetched list with the same views, likes, comments
  and creation time, at least one of the three counts being positive, the owner of one
  followed and the owner of the other not, and let the clock reading at which the
  followed post is scored be at most 23 hours later than the reading at which the
  other is scored (as it is when the clock stands still or ticks on while the rows are
  scored). Then the followed post has the strictly higher score, both are in the sorted
  feed, which has as many rows as were fetched, and the followed post stands strictly
  before the other.
\<close>

theorem followed_ranks_first:
  assumes "a < length shortsData" "b < length shortsData"
    "shortsData ! a = p" "shortsData ! b = q"
    "user_id p \<in> set followingIds" "user_id q \<notin> set followingIds"
    "video_views q = video_views p" "likes q = likes p" "comments q = comments p"
    "s_created_at q = s_created_at p" "has_engagement p"
    "nowAt a - nowAt b \<le> 82800000"
  shows "score_of (nowAt b) followingIds q < score_of (nowAt a) followingIds p
    \<and> length (scoredShorts nowAt followingIds shortsData) = length shortsData
    \<and> with_score (nowAt a) followingIds p \<in> set (scoredShorts nowAt followingIds shortsData)
    \<and> with_score (nowAt b) followingIds q \<in> set (scoredShorts nowAt followingIds shortsData)
    \<and> (\<forall>i j. i < length (scoredShorts nowAt followingIds shortsData)
           \<and> j < length (scoredShorts nowAt followingIds shortsData)
           \<and> scoredShorts nowAt followingIds shortsData ! i = with_score (nowAt a) followingIds p
           \<and> scoredShorts nowAt followingIds shortsData ! j = with_score (nowAt b) followingIds q
           \<longrightarrow> i < j)"
proof -
  let ?R = "scoredShorts nowAt followingIds shortsData"
  let ?P = "with_score (nowAt a) followingIds p" and ?Q = "with_score (nowAt b) followingIds q"
  have lt: "score_of (nowAt b) followingIds q < score_of (nowAt a) followingIds p"
    using assms(5-12) by (rule score_followed_greater)
  then have sc: "score ?Q < score ?P" by (simp add: with_score_def)
  have len: "length ?R = length shortsData"
    by (simp add: scoredShorts_def length_sort_by length_score_rows)
  have P: "?P \<in> set ?R" using scored_row_in_feed[OF assms(1)] assms(3) by simp
  have Q: "?Q \<in> set ?R" using scored_row_in_feed[OF assms(2)] assms(4) by simp
  have "i < j" if "i < length ?R" "j < length ?R" "?R ! i = ?P" "?R ! j = ?Q" for i j
  proof (rule ccontr)
    assume "\<not> i < j"
    then consider "i = j" | "j < i" by linarith
    then show False
    proof cases
      case 1
      with that sc show False by simp
    next
      case 2
      with sorted_scoredShorts[of nowAt followingIds shortsData] that(1)
      have "score (?R ! i) \<le> score (?R ! j)" by (simp add: sorted_wrt_iff_nth_less)
      with that sc show False by simp
    qed
  qed
  with lt len P Q show ?thesis by blast
qed

theorem followed_ranks_first_witness:
  "has_engagement short_F5 \<and> clock_tick 1 - clock_tick 0 \<le> 82800000
   \<and> map user_id (scoredShorts clock_tick [''F''] [short_U5, short_F5]) = [''F'', ''U'']
   \<and> map score (scoredShorts clock_tick [''F''] [short_U5, short_F5]) = [9 / 2, 3]"
proof -
  let ?R = "scoredShorts clock_tick [''F''] [short_U5, short_F5]"
  let ?P = "with_score (clock_tick 1) [''F''] short_F5"
  let ?Q = "with_score (clock_tick 0) [''F''] short_U5"
  have h: "has_engagement short_F5"
    by (simp add: has_engagement_def first_count_def sample_shorts dbl_values)
  have c: "clock_tick 1 - clock_tick 0 \<le> 82800000" by (simp add: clock_tick_def)
  have a: "1 < length [short_U5, short_F5]" "0 < length [short_U5, short_F5]"
    "[short_U5, short_F5] ! 1 = short_F5" "[short_U5, short_F5] ! 0 = short_U5"
    "user_id short_F5 \<in> set [''F'']" "user_id short_U5 \<notin> set [''F'']"
    "video_views short_U5 = video_views short_F5" "likes short_U5 = likes short_F5"
    "comments short_U5 = comments short_F5" "s_created_at short_U5 = s_created_at short_F5"
    by (simp_all add: sample_shorts)
  note t = followed_ranks_first[OF a h c]
  from t have len: "length ?R = 2" by simp
  from t have "?P \<in> set ?R" "?Q \<in> set ?R" by blast+
  then obtain i j where ij: "i < length ?R" "?R ! i = ?P" "j < length ?R" "?R ! j = ?Q"
    by (auto simp: in_set_conv_nth)
  with t have "i < j" by blast
  with ij len have "i = 0" "j = 1" by simp_all
  with ij have "?R ! 0 = ?P" "?R ! 1 = ?Q" by simp_all
  with len have R: "?R = [?P, ?Q]"
    by (cases ?R; cases "tl ?R") (auto simp: length_Suc_conv)
  have sF: "score_of (clock_tick 1) [''F''] short_F5 = 9 / 2"
    by (simp add: score_defs dbl_values sample_shorts clock_tick_def)
  have sU: "score_of (clock_tick 0) [''F''] short_U5 = 3"
    by (simp add: score_defs dbl_values sample_shorts clock_tick_def)
  have "map user_id ?R = [user_id short_F5, user_id short_U5]"
    by (simp add: R with_score_def)
  then have u: "map user_id ?R = [''F'', ''U'']" by (simp add: sample_shorts)
  have "map score ?R = [score ?P, score ?Q]" by (simp add: R)
  moreover have "score ?P = 9 / 2" using sF by (simp add: with_score_def)
  moreover have "score ?Q = 3" using sU by (simp add: with_score_def)
  ultimately have "map score ?R = [9 / 2, 3]" by simp
  with u h c show ?thesis by simp
qed

end
